theory Spec2Isabelle
  imports Main "HOL-Library.Monad_Syntax"
begin

section \<open>Go values: bytes, strings, slices and run-time panics\<close>

text \<open>
  The validator of \<^verbatim>\<open>pkg/timestream/validator/validator.go\<close> is embedded function by
  function. A Go \<^verbatim>\<open>string\<close> is a sequence of bytes and is modelled as \<^typ>\<open>string\<close>
  (a list of 8-bit characters); a Go \<^verbatim>\<open>int\<close> index is an \<^typ>\<open>int\<close> (indices never
  leave the range \<open>-1 .. len + 6\<close>, so the 64-bit wrap-around cannot occur).

  Reading \<^verbatim>\<open>xs[i]\<close> or slicing \<^verbatim>\<open>s[i:j]\<close> out of range panics in Go. Every function
  that indexes therefore returns an \<^typ>\<open>'a option\<close>, where \<open>None\<close> is exactly that
  run-time panic. All loops are defined with a termination proof, so \<open>None\<close> never
  stands for a computation that does not return.
\<close>

abbreviation len :: "'a list \<Rightarrow> int" where
  "len xs \<equiv> int (length xs)"

definition at :: "'a list \<Rightarrow> int \<Rightarrow> 'a option" where
  "at xs i = (if 0 \<le> i \<and> i < len xs then Some (xs ! nat i) else None)"

definition slice :: "'a list \<Rightarrow> int \<Rightarrow> int \<Rightarrow> 'a list option" where
  "slice xs i j =
     (if 0 \<le> i \<and> i \<le> j \<and> j \<le> len xs then Some (take (nat (j - i)) (drop (nat i) xs))
      else None)"

text \<open>
  The short-circuit operators \<^verbatim>\<open>a && b\<close> and \<^verbatim>\<open>a || b\<close> where evaluating \<^verbatim>\<open>b\<close> may index:
  \<^verbatim>\<open>b\<close> is evaluated only when \<^verbatim>\<open>a\<close> does not decide the result.
\<close>

definition andalso :: "bool \<Rightarrow> bool option \<Rightarrow> bool option" where
  "andalso a b = (if a then b else Some False)"

definition orelse :: "bool \<Rightarrow> bool option \<Rightarrow> bool option" where
  "orelse a b = (if a then Some True else b)"

subsection \<open>The standard-library functions the validator calls\<close>

text \<open>
  \<^verbatim>\<open>unicode.IsSpace\<close>, \<^verbatim>\<open>unicode.IsLetter\<close> and \<^verbatim>\<open>unicode.IsDigit\<close> are only ever applied to
  \<^verbatim>\<open>rune(b)\<close> for a byte \<^verbatim>\<open>b\<close>, that is to the Latin-1 code points; their values there
  are the ones of Go's \<^verbatim>\<open>unicode\<close> package.
\<close>

definition IsSpace :: "char \<Rightarrow> bool" where
  "IsSpace c = (c \<in> {CHR 0x09, CHR 0x0A, CHR 0x0B, CHR 0x0C, CHR 0x0D, CHR 0x20, CHR 0x85, CHR 0xA0})"

definition IsDigit :: "char \<Rightarrow> bool" where
  "IsDigit c = (let n = (of_char c :: nat) in 48 \<le> n \<and> n \<le> 57)"

definition IsLetter :: "char \<Rightarrow> bool" where
  "IsLetter c =
     (let n = (of_char c :: nat) in
        (65 \<le> n \<and> n \<le> 90) \<or> (97 \<le> n \<and> n \<le> 122) \<or> n = 170 \<or> n = 181 \<or> n = 186 \<or>
        (192 \<le> n \<and> n \<le> 214) \<or> (216 \<le> n \<and> n \<le> 246) \<or> (248 \<le> n \<and> n \<le> 255))"

text \<open>
  \<^verbatim>\<open>string(r)\<close> for a byte \<^verbatim>\<open>r\<close> is the UTF-8 encoding of the code point \<^verbatim>\<open>r\<close>: one byte
  below \<open>0x80\<close>, two bytes from there on.
\<close>

definition string_of_byte :: "char \<Rightarrow> string" where
  "string_of_byte r =
     (let n = (of_char r :: nat) in
        if n < 128 then [r] else [char_of (192 + n div 64), char_of (128 + n mod 64)])"

text \<open>
  \<^verbatim>\<open>strings.ToLower\<close> and \<^verbatim>\<open>strings.TrimSpace\<close> decode UTF-8 and use the Unicode tables
  of the Go library; they are parameters of the model, collected in one record, so that
  every general theorem holds for whatever these two functions compute. On text that
  is pure ASCII they are \<open>ascii_strings\<close> below, which is what the concrete queries use.
\<close>

record strings_pkg =
  ToLower :: "string \<Rightarrow> string"
  TrimSpace :: "string \<Rightarrow> string"

definition ascii_lower :: "char \<Rightarrow> char" where
  "ascii_lower c =
     (let n = (of_char c :: nat) in if 65 \<le> n \<and> n \<le> 90 then char_of (n + 32) else c)"

definition ascii_space :: "char \<Rightarrow> bool" where
  "ascii_space c = (c \<in> {CHR 0x09, CHR 0x0A, CHR 0x0B, CHR 0x0C, CHR 0x0D, CHR 0x20})"

definition ascii_strings :: strings_pkg where
  "ascii_strings =
     \<lparr> ToLower = map ascii_lower,
       TrimSpace = (\<lambda>s. rev (dropWhile ascii_space (rev (dropWhile ascii_space s)))) \<rparr>"

section \<open>Tokens\<close>

text \<open>
  The select-site of \<^verbatim>\<open>Validate\<close> (its local type \<^verbatim>\<open>sel\<close>), the \<^verbatim>\<open>Issue\<close> and the token.
  The two \<open>depth\<close> fields are told apart as \<open>sel.depth\<close> and \<open>token.depth\<close>.
\<close>

record sel =
  selIdx :: int
  depth :: int

record Issue =
  Snippet :: string
  Reason :: string
  AtDepth :: int

datatype tokenKind = tkIdent | tkKeyword | tkString | tkNumber | tkSymbol

record token =
  val :: string
  kind :: tokenKind
  depth :: int

definition keywords_tbl :: "string list" where
  "keywords_tbl =
     [''select'', ''from'', ''where'', ''group'', ''by'', ''order'', ''having'',
      ''union'', ''intersect'', ''except'', ''join'', ''left'', ''right'', ''full'',
      ''outer'', ''inner'', ''cross'', ''on'', ''as'', ''with'', ''lateral'',
      ''between'', ''and'', ''or'', ''not'', ''in'', ''exists'']"

definition isIdentStart :: "char \<Rightarrow> bool" where
  "isIdentStart b = (IsLetter b \<or> b = CHR ''_'' \<or> b = CHR ''$'')"

definition isIdentPart :: "char \<Rightarrow> bool" where
  "isIdentPart b = (IsLetter b \<or> IsDigit b \<or> b = CHR ''_'' \<or> b = CHR ''.'' \<or> b = CHR ''$'')"

definition isNumStart :: "char \<Rightarrow> bool" where
  "isNumStart b = IsDigit b"

definition isNum :: "char \<Rightarrow> bool" where
  "isNum b = IsDigit b"

section \<open>Comment stripping\<close>

text \<open>
  \<^verbatim>\<open>stripComments\<close> is one loop over the byte index with the flags \<^verbatim>\<open>inLine\<close> and
  \<^verbatim>\<open>inBlock\<close> and the builder \<^verbatim>\<open>b\<close>; \<open>out\<close> is the builder's content.
\<close>

function stripComments_loop :: "string \<Rightarrow> int \<Rightarrow> bool \<Rightarrow> bool \<Rightarrow> string \<Rightarrow> string option" where
  "stripComments_loop s i inLine inBlock out =
     (if i < len s then
        do {
          c \<leftarrow> at s i;
          if inLine then
            (if c = CHR 0x0A then stripComments_loop s (i + 1) False inBlock (out @ [c])
             else stripComments_loop s (i + 1) inLine inBlock out)
          else if inBlock then
            do {
              close \<leftarrow> andalso (c = CHR ''*'' \<and> i + 1 < len s)
                         (map_option (\<lambda>n. n = CHR ''/'') (at s (i + 1)));
              if close then stripComments_loop s (i + 2) inLine False out
              else stripComments_loop s (i + 1) inLine inBlock out
            }
          else
            do {
              line \<leftarrow> andalso (c = CHR ''-'' \<and> i + 1 < len s)
                        (map_option (\<lambda>n. n = CHR ''-'') (at s (i + 1)));
              if line then stripComments_loop s (i + 2) True inBlock out
              else
                do {
                  block \<leftarrow> andalso (c = CHR ''/'' \<and> i + 1 < len s)
                             (map_option (\<lambda>n. n = CHR ''*'') (at s (i + 1)));
                  if block then stripComments_loop s (i + 2) inLine True out
                  else stripComments_loop s (i + 1) inLine inBlock (out @ [c])
                }
            }
        }
      else Some out)"
  by pat_completeness auto
termination
  by (relation "measure (\<lambda>(s, i, inLine, inBlock, out). nat (len s - i))") auto

declare stripComments_loop.simps [simp del]

definition stripComments :: "string \<Rightarrow> string option" where
  "stripComments s = stripComments_loop s 0 False False []"

section \<open>The lexer\<close>

text \<open>
  The closure \<^verbatim>\<open>readString(i, quote)\<close>: \<open>j\<close> is its loop variable, started at \<open>i + 1\<close>.
\<close>

function readString_loop :: "string \<Rightarrow> int \<Rightarrow> char \<Rightarrow> int \<Rightarrow> (string \<times> int) option" where
  "readString_loop s i quote j =
     (if j < len s then
        do {
          c \<leftarrow> at s j;
          if c = quote then
            do {
              doubled \<leftarrow> andalso (j + 1 < len s) (map_option (\<lambda>n. n = quote) (at s (j + 1)));
              if doubled then readString_loop s i quote (j + 2)
              else do { str \<leftarrow> slice s i (j + 1); Some (str, j + 1) }
            }
          else readString_loop s i quote (j + 1)
        }
      else do { str \<leftarrow> slice s i (len s); Some (str, len s) })"
  by pat_completeness auto
termination
  by (relation "measure (\<lambda>(s, i, quote, j). nat (len s - j))") auto

declare readString_loop.simps [simp del]

definition readString :: "string \<Rightarrow> int \<Rightarrow> char \<Rightarrow> (string \<times> int) option" where
  "readString s i quote = readString_loop s i quote (i + 1)"

text \<open>
  The two inner scans \<^verbatim>\<open>for j < len(s) && p(s[j]) { j++ }\<close> of numbers and identifiers.
\<close>

function scan_while :: "(char \<Rightarrow> bool) \<Rightarrow> string \<Rightarrow> int \<Rightarrow> int option" where
  "scan_while p s j =
     (if j < len s then
        do { c \<leftarrow> at s j; if p c then scan_while p s (j + 1) else Some j }
      else Some j)"
  by pat_completeness auto
termination
  by (relation "measure (\<lambda>(p, s, j). nat (len s - j))") auto

declare scan_while.simps [simp del]

lemma readString_loop_bounds:
  "readString_loop s i quote j = Some (str, nx) \<Longrightarrow> j \<le> len s \<Longrightarrow> j \<le> nx \<and> nx \<le> len s"
proof (induction s i quote j rule: readString_loop.induct)
  case (1 s i quote j)
  from "1.prems" "1.IH" show ?case
    by (subst (asm) readString_loop.simps)
       (force simp: andalso_def split: if_splits bind_splits)
qed

lemma readString_bounds:
  "readString s i quote = Some (str, nx) \<Longrightarrow> i < len s \<Longrightarrow> i < nx \<and> nx \<le> len s"
  using readString_loop_bounds [of s i quote "i + 1" str nx] by (simp add: readString_def)

lemma scan_while_bounds:
  "scan_while p s j = Some nx \<Longrightarrow> j \<le> len s \<Longrightarrow> j \<le> nx \<and> nx \<le> len s"
proof (induction p s j rule: scan_while.induct)
  case (1 p s j)
  from "1.prems" "1.IH" show ?case
    by (subst (asm) scan_while.simps) (force split: if_splits bind_splits)
qed

text \<open>
  The main loop of \<^verbatim>\<open>lex\<close>: \<open>i\<close> is the byte index, \<open>dp\<close> the current parenthesis
  depth and \<open>out\<close> the tokens appended so far. \<open>L\<close> supplies \<^verbatim>\<open>strings.ToLower\<close>.
\<close>

function lex_loop :: "strings_pkg \<Rightarrow> string \<Rightarrow> int \<Rightarrow> int \<Rightarrow> token list \<Rightarrow> token list option" where
  "lex_loop L s i dp out =
     (if i < len s then
        do {
          r \<leftarrow> at s i;
          if IsSpace r then lex_loop L s (i + 1) dp out
          else if r = CHR ''('' then
            lex_loop L s (i + 1) (dp + 1)
              (out @ [\<lparr>val = ''('', kind = tkSymbol, depth = dp\<rparr>])
          else if r = CHR '')'' then
            (let dp = (if dp - 1 < 0 then 0 else dp - 1) in
               lex_loop L s (i + 1) dp (out @ [\<lparr>val = '')'', kind = tkSymbol, depth = dp\<rparr>]))
          else if r = CHR 0x27 \<or> r = CHR 0x22 then
            do {
              (str, nx) \<leftarrow> readString s i r;
              if r = CHR 0x22 then
                lex_loop L s nx dp (out @ [\<lparr>val = ToLower L str, kind = tkIdent, depth = dp\<rparr>])
              else
                lex_loop L s nx dp (out @ [\<lparr>val = str, kind = tkString, depth = dp\<rparr>])
            }
          else if isNumStart r then
            do {
              j \<leftarrow> scan_while (\<lambda>c. isNum c \<or> c = CHR ''.'') s (i + 1);
              num \<leftarrow> slice s i j;
              lex_loop L s j dp (out @ [\<lparr>val = num, kind = tkNumber, depth = dp\<rparr>])
            }
          else if isIdentStart r then
            do {
              j \<leftarrow> scan_while isIdentPart s (i + 1);
              w \<leftarrow> slice s i j;
              let word = ToLower L w;
              if word \<in> set keywords_tbl then
                lex_loop L s j dp (out @ [\<lparr>val = word, kind = tkKeyword, depth = dp\<rparr>])
              else
                lex_loop L s j dp (out @ [\<lparr>val = word, kind = tkIdent, depth = dp\<rparr>])
            }
          else
            do {
              two \<leftarrow> andalso ((r = CHR ''>'' \<or> r = CHR ''<'' \<or> r = CHR ''!'') \<and> i + 1 < len s)
                       (map_option
                          (\<lambda>n. (r = CHR ''>'' \<and> n = CHR ''='') \<or>
                               (r = CHR ''<'' \<and> (n = CHR ''='' \<or> n = CHR ''>'')) \<or>
                               (r = CHR ''!'' \<and> n = CHR ''=''))
                          (at s (i + 1)));
              if two then
                do {
                  op \<leftarrow> slice s i (i + 2);
                  lex_loop L s (i + 2) dp (out @ [\<lparr>val = ToLower L op, kind = tkSymbol, depth = dp\<rparr>])
                }
              else
                lex_loop L s (i + 1) dp
                  (out @ [\<lparr>val = ToLower L (string_of_byte r), kind = tkSymbol, depth = dp\<rparr>])
            }
        }
      else Some out)"
  by pat_completeness auto
termination
  apply (relation "measure (\<lambda>(L, s, i, dp, out). nat (len s - i))")
  apply (auto dest: readString_bounds scan_while_bounds)
  done

declare lex_loop.simps [simp del]

definition lex :: "strings_pkg \<Rightarrow> string \<Rightarrow> token list option" where
  "lex L s = lex_loop L s 0 0 []"

section \<open>Scanning the token sequence\<close>

function findNextKeywordAtDepth :: "token list \<Rightarrow> int \<Rightarrow> int \<Rightarrow> string \<Rightarrow> int option" where
  "findNextKeywordAtDepth toks i dp word =
     (if i < len toks then
        do {
          t \<leftarrow> at toks i;
          if token.depth t < dp then Some (- 1)
          else if token.depth t \<noteq> dp then findNextKeywordAtDepth toks (i + 1) dp word
          else if kind t = tkKeyword \<and> val t = word then Some i
          else findNextKeywordAtDepth toks (i + 1) dp word
        }
      else Some (- 1))"
  by pat_completeness auto
termination
  by (relation "measure (\<lambda>(toks, i, dp, word). nat (len toks - i))") auto

declare findNextKeywordAtDepth.simps [simp del]

function findNextKeywordBetweenAtDepth_loop ::
  "token list \<Rightarrow> int \<Rightarrow> int \<Rightarrow> int \<Rightarrow> string \<Rightarrow> int option" where
  "findNextKeywordBetweenAtDepth_loop toks i stop dp word =
     (if i < stop \<and> i < len toks then
        do {
          t \<leftarrow> at toks i;
          if token.depth t \<noteq> dp then findNextKeywordBetweenAtDepth_loop toks (i + 1) stop dp word
          else if kind t = tkKeyword \<and> val t = word then Some i
          else findNextKeywordBetweenAtDepth_loop toks (i + 1) stop dp word
        }
      else Some (- 1))"
  by pat_completeness auto
termination
  by (relation "measure (\<lambda>(toks, i, stop, dp, word). nat (len toks - i))") auto

declare findNextKeywordBetweenAtDepth_loop.simps [simp del]

definition findNextKeywordBetweenAtDepth ::
  "token list \<Rightarrow> int \<Rightarrow> int \<Rightarrow> int \<Rightarrow> string \<Rightarrow> int option" where
  "findNextKeywordBetweenAtDepth toks start stop dp word =
     (let stop = (if stop < 0 then len toks else stop) in
        findNextKeywordBetweenAtDepth_loop toks start stop dp word)"

function findNextTerminatorAtDepth :: "token list \<Rightarrow> int \<Rightarrow> int \<Rightarrow> int option" where
  "findNextTerminatorAtDepth toks i dp =
     (if i < len toks then
        do {
          t \<leftarrow> at toks i;
          if token.depth t < dp then Some i
          else if token.depth t = dp \<and> kind t = tkKeyword \<and>
                  val t \<in> {''group'', ''order'', ''having'', ''union'', ''intersect'', ''except''}
          then Some i
          else findNextTerminatorAtDepth toks (i + 1) dp
        }
      else Some (len toks))"
  by pat_completeness auto
termination
  by (relation "measure (\<lambda>(toks, i, dp). nat (len toks - i))") auto

declare findNextTerminatorAtDepth.simps [simp del]

definition isCompareOp :: "string \<Rightarrow> bool" where
  "isCompareOp s = (s \<in> {''='', ''<'', ''>'', ''<='', ''>='', ''<>'', ''!=''})"

definition stripQuotes :: "strings_pkg \<Rightarrow> string \<Rightarrow> string option" where
  "stripQuotes L s =
     do {
       quoted \<leftarrow> andalso (len s \<ge> 2)
         (do {
            a \<leftarrow> at s 0;
            z \<leftarrow> at s (len s - 1);
            Some ((a = CHR 0x22 \<and> z = CHR 0x22) \<or> (a = CHR 0x27 \<and> z = CHR 0x27))
          });
       if quoted then map_option (ToLower L) (slice s 1 (len s - 1))
       else Some (ToLower L s)
     }"

definition isTimeIdentifierAt :: "token list \<Rightarrow> int \<Rightarrow> bool option" where
  "isTimeIdentifierAt toks i =
     (if i < 0 \<or> i \<ge> len toks then Some False
      else
        do {
          t \<leftarrow> at toks i;
          if kind t \<noteq> tkIdent then Some False else Some (val t = ''time'')
        })"

text \<open>
  The loop \<^verbatim>\<open>for j < stop && j < len(toks) && toks[j].depth != depth { j++ }\<close>, which
  \<^verbatim>\<open>fromStartsWithBaseTable\<close> and \<^verbatim>\<open>whereHasTimePredicate\<close> both use to reach the next token
  at a given depth; the result is the final \<open>j\<close>.
\<close>

function skipOtherDepth :: "token list \<Rightarrow> int \<Rightarrow> int \<Rightarrow> int \<Rightarrow> int option" where
  "skipOtherDepth toks j stop dp =
     (if j < stop \<and> j < len toks then
        do {
          t \<leftarrow> at toks j;
          if token.depth t \<noteq> dp then skipOtherDepth toks (j + 1) stop dp else Some j
        }
      else Some j)"
  by pat_completeness auto
termination
  by (relation "measure (\<lambda>(toks, j, stop, dp). nat (len toks - j))") auto

declare skipOtherDepth.simps [simp del]

section \<open>Does the FROM source look like a base table?\<close>

text \<open>
  The three loops of \<^verbatim>\<open>fromStartsWithBaseTable\<close>. The first one either leaves the function
  (\<open>Inl b\<close> is \<^verbatim>\<open>return b\<close>) or ends with the index of the first meaningful token
  (\<open>Inr i\<close>).
\<close>

function fromStart_advance :: "token list \<Rightarrow> int \<Rightarrow> int \<Rightarrow> int \<Rightarrow> (bool + int) option" where
  "fromStart_advance toks i stop dp =
     (if i < stop \<and> i < len toks then
        do {
          t \<leftarrow> at toks i;
          if token.depth t \<noteq> dp then fromStart_advance toks (i + 1) stop dp
          else if kind t = tkSymbol then
            (if val t = ''('' then Some (Inl False) else fromStart_advance toks (i + 1) stop dp)
          else if kind t = tkKeyword then
            (if val t = ''select'' then Some (Inl False)
             else fromStart_advance toks (i + 1) stop dp)
          else Some (Inr i)
        }
      else Some (Inr i))"
  by pat_completeness auto
termination
  by (relation "measure (\<lambda>(toks, i, stop, dp). nat (len toks - i))") auto

declare fromStart_advance.simps [simp del]

function fromStart_seekIdent :: "token list \<Rightarrow> int \<Rightarrow> int \<Rightarrow> int \<Rightarrow> bool option" where
  "fromStart_seekIdent toks k stop dp =
     (if k < stop \<and> k < len toks then
        do {
          t \<leftarrow> at toks k;
          if token.depth t \<noteq> dp then fromStart_seekIdent toks (k + 1) stop dp
          else if kind t = tkSymbol then fromStart_seekIdent toks (k + 1) stop dp
          else Some (kind t = tkIdent)
        }
      else Some False)"
  by pat_completeness auto
termination
  by (relation "measure (\<lambda>(toks, k, stop, dp). nat (len toks - k))") auto

declare fromStart_seekIdent.simps [simp del]

function fromStart_seekDot :: "token list \<Rightarrow> int \<Rightarrow> int \<Rightarrow> int \<Rightarrow> bool option" where
  "fromStart_seekDot toks j stop dp =
     (if j < stop \<and> j < len toks then
        do {
          t \<leftarrow> at toks j;
          if token.depth t \<noteq> dp then fromStart_seekDot toks (j + 1) stop dp
          else if kind t = tkSymbol then
            (if val t \<noteq> ''.'' then fromStart_seekDot toks (j + 1) stop dp
             else fromStart_seekIdent toks (j + 1) stop dp)
          else Some False
        }
      else Some False)"
  by pat_completeness auto
termination
  by (relation "measure (\<lambda>(toks, j, stop, dp). nat (len toks - j))") auto

declare fromStart_seekDot.simps [simp del]

definition fromStartsWithBaseTable ::
  "strings_pkg \<Rightarrow> token list \<Rightarrow> int \<Rightarrow> int \<Rightarrow> int \<Rightarrow> bool option" where
  "fromStartsWithBaseTable L toks start stop dp =
     do {
       r \<leftarrow> fromStart_advance toks start stop dp;
       case r of
         Inl b \<Rightarrow> Some b
       | Inr i \<Rightarrow>
           do {
             noIdent \<leftarrow> orelse (i \<ge> stop \<or> i \<ge> len toks)
                          (map_option (\<lambda>t. kind t \<noteq> tkIdent) (at toks i));
             if noIdent then Some False
             else
               do {
                 t \<leftarrow> at toks i;
                 name \<leftarrow> stripQuotes L (val t);
                 if CHR ''.'' \<in> set name then
                   do {
                     j \<leftarrow> skipOtherDepth toks (i + 1) stop dp;
                     call \<leftarrow> andalso (j < stop \<and> j < len toks)
                               (map_option (\<lambda>t. kind t = tkSymbol \<and> val t = ''('') (at toks j));
                     if call then Some False else Some True
                   }
                 else fromStart_seekDot toks (i + 1) stop dp
               }
           }
     }"

section \<open>The two predicate checks on a branch\<close>

text \<open>
  \<^verbatim>\<open>whereHasTimePredicate\<close>: the forward look from a \<open>time\<close> identifier at index \<open>i\<close>
  (the body of the first \<^verbatim>\<open>if\<close>), the backward window of a \<open>between\<close> keyword at index
  \<open>i\<close> (the loop over \<open>k\<close>), and the loop over \<open>i\<close>.
\<close>

definition timeOperatorFollows :: "token list \<Rightarrow> int \<Rightarrow> int \<Rightarrow> bool option" where
  "timeOperatorFollows toks stop i =
     do {
       t \<leftarrow> at toks i;
       let dp = token.depth t;
       j \<leftarrow> skipOtherDepth toks (i + 1) stop dp;
       isNot \<leftarrow> andalso (j < stop \<and> j < len toks)
                  (map_option (\<lambda>t. kind t = tkKeyword \<and> val t = ''not'') (at toks j));
       notBetween \<leftarrow> andalso isNot
         (do {
            k \<leftarrow> skipOtherDepth toks (j + 1) stop dp;
            andalso (k < stop \<and> k < len toks)
              (map_option (\<lambda>t. kind t = tkKeyword \<and> val t = ''between'') (at toks k))
          });
       if notBetween then Some True
       else
         do {
           between \<leftarrow> andalso (j < stop \<and> j < len toks)
                        (map_option (\<lambda>t. kind t = tkKeyword \<and> val t = ''between'') (at toks j));
           if between then Some True
           else
             andalso (j < stop \<and> j < len toks)
               (map_option (\<lambda>t. kind t = tkSymbol \<and> isCompareOp (val t)) (at toks j))
         }
     }"

function timeLookback :: "token list \<Rightarrow> int \<Rightarrow> int \<Rightarrow> int \<Rightarrow> int \<Rightarrow> bool option" where
  "timeLookback toks start i dp k =
     (if k \<ge> start \<and> k \<ge> i - 6 then
        do {
          t \<leftarrow> at toks k;
          if kind t = tkKeyword \<and> val t = ''not'' then timeLookback toks start i dp (k - 1)
          else
            do {
              isTime \<leftarrow> isTimeIdentifierAt toks k;
              found \<leftarrow> andalso isTime (map_option (\<lambda>t. token.depth t = dp) (at toks k));
              if found then Some True else timeLookback toks start i dp (k - 1)
            }
        }
      else Some False)"
  by pat_completeness auto
termination
  by (relation "measure (\<lambda>(toks, start, i, dp, k). nat (k - (i - 7)))") auto

declare timeLookback.simps [simp del]

function whereHasTimePredicate_loop :: "token list \<Rightarrow> int \<Rightarrow> int \<Rightarrow> int \<Rightarrow> bool option" where
  "whereHasTimePredicate_loop toks start stop i =
     (if i < stop \<and> i < len toks then
        do {
          isTime \<leftarrow> isTimeIdentifierAt toks i;
          forward \<leftarrow> andalso isTime (timeOperatorFollows toks stop i);
          if forward then Some True
          else
            do {
              t \<leftarrow> at toks i;
              back \<leftarrow> andalso (kind t = tkKeyword \<and> val t = ''between'')
                        (timeLookback toks start i (token.depth t) (i - 1));
              if back then Some True
              else whereHasTimePredicate_loop toks start stop (i + 1)
            }
        }
      else Some False)"
  by pat_completeness auto
termination
  by (relation "measure (\<lambda>(toks, start, stop, i). nat (len toks - i))") auto

declare whereHasTimePredicate_loop.simps [simp del]

definition whereHasTimePredicate :: "token list \<Rightarrow> int \<Rightarrow> int \<Rightarrow> bool option" where
  "whereHasTimePredicate toks start stop =
     (let stop = (if stop < 0 then len toks else stop) in
        whereHasTimePredicate_loop toks start stop start)"

text \<open>
  \<^verbatim>\<open>whereHasMeasureNamePredicate\<close>: the loop over \<open>i\<close> with its two flags. The tokens
  \<open>i + 1 .. i + 5\<close> are read only after \<^verbatim>\<open>toks[i]\<close> and under the bound
  \<^verbatim>\<open>i+5 < len(toks)\<close>, as in the source's conjunction.
\<close>

definition regexpLikeAt :: "token list \<Rightarrow> int \<Rightarrow> bool option" where
  "regexpLikeAt toks i =
     do {
       t1 \<leftarrow> at toks (i + 1);
       t2 \<leftarrow> at toks (i + 2);
       t3 \<leftarrow> at toks (i + 3);
       t4 \<leftarrow> at toks (i + 4);
       t5 \<leftarrow> at toks (i + 5);
       Some (kind t1 = tkSymbol \<and> val t1 = ''('' \<and>
             kind t2 = tkIdent \<and> val t2 = ''measure_name'' \<and>
             kind t3 = tkSymbol \<and> val t3 = '','' \<and>
             kind t4 = tkString \<and>
             kind t5 = tkSymbol \<and> val t5 = '')'')
     }"

definition measureEqualsAt :: "token list \<Rightarrow> int \<Rightarrow> bool option" where
  "measureEqualsAt toks i =
     do {
       t1 \<leftarrow> at toks (i + 1);
       t2 \<leftarrow> at toks (i + 2);
       Some (kind t1 = tkSymbol \<and> val t1 = ''='' \<and> kind t2 = tkString)
     }"

function whereHasMeasureNamePredicate_loop ::
  "token list \<Rightarrow> int \<Rightarrow> int \<Rightarrow> bool \<Rightarrow> bool \<Rightarrow> bool option" where
  "whereHasMeasureNamePredicate_loop toks stop i foundValid foundInvalid =
     (if i < stop \<and> i < len toks then
        do {
          t \<leftarrow> at toks i;
          pattern1 \<leftarrow> andalso (kind t = tkIdent \<and> val t = ''regexp_like'' \<and>
                               i + 5 < stop \<and> i + 5 < len toks)
                        (regexpLikeAt toks i);
          if pattern1 then whereHasMeasureNamePredicate_loop toks stop (i + 6) True foundInvalid
          else if kind t = tkIdent \<and> val t = ''measure_name'' then
            do {
              pattern2 \<leftarrow> andalso (i + 2 < stop \<and> i + 2 < len toks) (measureEqualsAt toks i);
              if pattern2 then whereHasMeasureNamePredicate_loop toks stop (i + 3) True foundInvalid
              else whereHasMeasureNamePredicate_loop toks stop (i + 1) foundValid True
            }
          else whereHasMeasureNamePredicate_loop toks stop (i + 1) foundValid foundInvalid
        }
      else Some (foundValid \<and> \<not> foundInvalid))"
  by pat_completeness auto
termination
  by (relation "measure (\<lambda>(toks, stop, i, foundValid, foundInvalid). nat (len toks - i))") auto

declare whereHasMeasureNamePredicate_loop.simps [simp del]

definition whereHasMeasureNamePredicate :: "token list \<Rightarrow> int \<Rightarrow> int \<Rightarrow> bool option" where
  "whereHasMeasureNamePredicate toks start stop =
     (let stop = (if stop < 0 then len toks else stop) in
        whereHasMeasureNamePredicate_loop toks stop start False False)"

section \<open>Splitting a WHERE clause at its top-level ORs\<close>

function findTopLevelOrBranches_loop ::
  "token list \<Rightarrow> int \<Rightarrow> int \<Rightarrow> int \<Rightarrow> int \<Rightarrow> (int \<times> int) list \<Rightarrow> (int \<times> int) list option" where
  "findTopLevelOrBranches_loop toks i stop dp currentBranchStart branches =
     (if i < stop \<and> i < len toks then
        do {
          t \<leftarrow> at toks i;
          if token.depth t = dp \<and> kind t = tkKeyword \<and> val t = ''or'' then
            findTopLevelOrBranches_loop toks (i + 1) stop dp (i + 1)
              (branches @ [(currentBranchStart, i)])
          else findTopLevelOrBranches_loop toks (i + 1) stop dp currentBranchStart branches
        }
      else Some (branches @ [(currentBranchStart, stop)]))"
  by pat_completeness auto
termination
  by (relation "measure (\<lambda>(toks, i, stop, dp, cur, branches). nat (len toks - i))") auto

declare findTopLevelOrBranches_loop.simps [simp del]

definition findTopLevelOrBranches ::
  "token list \<Rightarrow> int \<Rightarrow> int \<Rightarrow> int \<Rightarrow> (int \<times> int) list option" where
  "findTopLevelOrBranches toks start stop dp =
     (let stop = (if stop < 0 then len toks else stop) in
        findTopLevelOrBranches_loop toks start stop dp start [])"

section \<open>Diagnostics\<close>

function snippetAroundTokens_loop :: "token list \<Rightarrow> int \<Rightarrow> int \<Rightarrow> string \<Rightarrow> string option" where
  "snippetAroundTokens_loop toks i stop b =
     (if i < stop then
        (if len b > 220 then Some (b @ '' ...'')
         else
           do {
             t \<leftarrow> at toks i;
             let b = b @ val t;
             let b = (if i + 1 < stop then b @ '' '' else b);
             snippetAroundTokens_loop toks (i + 1) stop b
           })
      else Some b)"
  by pat_completeness auto
termination
  by (relation "measure (\<lambda>(toks, i, stop, b). nat (stop - i))") auto

declare snippetAroundTokens_loop.simps [simp del]

definition snippetAroundTokens :: "strings_pkg \<Rightarrow> token list \<Rightarrow> int \<Rightarrow> int \<Rightarrow> string option" where
  "snippetAroundTokens L toks start stop =
     (let start = (if start < 0 then 0 else start);
          stop = (if stop < 0 \<or> stop > len toks then len toks else stop)
      in map_option (TrimSpace L) (snippetAroundTokens_loop toks start stop []))"

section \<open>Validate\<close>

text \<open>The first loop of \<^verbatim>\<open>Validate\<close>: every \<open>select\<close> keyword is a select-site.\<close>

function collectSelects :: "token list \<Rightarrow> int \<Rightarrow> sel list \<Rightarrow> sel list option" where
  "collectSelects toks i selects =
     (if i < len toks then
        do {
          t \<leftarrow> at toks i;
          if kind t = tkKeyword \<and> val t = ''select'' then
            collectSelects toks (i + 1) (selects @ [\<lparr>selIdx = i, depth = token.depth t\<rparr>])
          else collectSelects toks (i + 1) selects
        }
      else Some selects)"
  by pat_completeness auto
termination
  by (relation "measure (\<lambda>(toks, i, selects). nat (len toks - i))") auto

declare collectSelects.simps [simp del]

text \<open>
  The loop over the branches of one WHERE clause, with the flags \<^verbatim>\<open>hasMissingTime\<close> and
  \<^verbatim>\<open>hasMissingMeasure\<close>.
\<close>

fun checkBranches :: "token list \<Rightarrow> (int \<times> int) list \<Rightarrow> bool \<Rightarrow> bool \<Rightarrow> (bool \<times> bool) option" where
  "checkBranches toks [] hasMissingTime hasMissingMeasure =
     Some (hasMissingTime, hasMissingMeasure)"
| "checkBranches toks ((branchStart, branchStop) # branches) hasMissingTime hasMissingMeasure =
     do {
       hasTime \<leftarrow> whereHasTimePredicate toks branchStart branchStop;
       hasMeasure \<leftarrow> whereHasMeasureNamePredicate toks branchStart branchStop;
       checkBranches toks branches
         (if \<not> hasTime then True else hasMissingTime)
         (if \<not> hasMeasure then True else hasMissingMeasure)
     }"

text \<open>
  The body of the loop over the select-sites: the issues that the iteration for the
  site \<open>s\<close> appends (\<open>[]\<close> where the source says \<^verbatim>\<open>continue\<close> without appending).
\<close>

definition validateSelect :: "strings_pkg \<Rightarrow> token list \<Rightarrow> sel \<Rightarrow> Issue list option" where
  "validateSelect L toks s =
     do {
       fromIdx \<leftarrow> findNextKeywordAtDepth toks (selIdx s + 1) (sel.depth s) ''from'';
       if fromIdx = - 1 then Some []
       else
         do {
           stopIdx \<leftarrow> findNextTerminatorAtDepth toks (fromIdx + 1) (sel.depth s);
           hitsDB \<leftarrow> fromStartsWithBaseTable L toks (fromIdx + 1) stopIdx (sel.depth s);
           if \<not> hitsDB then Some []
           else
             do {
               whereIdx \<leftarrow>
                 findNextKeywordBetweenAtDepth toks (fromIdx + 1) stopIdx (sel.depth s) ''where'';
               if whereIdx = - 1 then
                 do {
                   snippet \<leftarrow> snippetAroundTokens L toks (selIdx s) stopIdx;
                   Some [\<lparr>Snippet = snippet, Reason = ''missing WHERE clause'',
                          AtDepth = sel.depth s\<rparr>]
                 }
               else
                 do {
                   whereStop \<leftarrow> findNextTerminatorAtDepth toks (whereIdx + 1) (sel.depth s);
                   branches \<leftarrow> findTopLevelOrBranches toks (whereIdx + 1) whereStop (sel.depth s);
                   let hasInvalidOr = (length branches > 1);
                   (hasMissingTime, hasMissingMeasure) \<leftarrow> checkBranches toks branches False False;
                   timeIssue \<leftarrow>
                     (if hasMissingTime then
                        do {
                          snippet \<leftarrow> snippetAroundTokens L toks (selIdx s) whereStop;
                          Some [\<lparr>Snippet = snippet,
                                 Reason = (if hasInvalidOr
                                           then ''an OR branch in WHERE clause lacks a time predicate''
                                           else ''WHERE clause lacks a time predicate''),
                                 AtDepth = sel.depth s\<rparr>]
                        }
                      else Some []);
                   measureIssue \<leftarrow>
                     (if hasMissingMeasure then
                        do {
                          snippet \<leftarrow> snippetAroundTokens L toks (selIdx s) whereStop;
                          Some [\<lparr>Snippet = snippet,
                                 Reason = (if hasInvalidOr
                                           then ''an OR branch in WHERE clause lacks a valid measure_name predicate (requires = '' @ [CHR 0x27] @ ''...'' @ [CHR 0x27] @ '' or regexp_like)''
                                           else ''WHERE clause lacks a valid measure_name predicate (requires = '' @ [CHR 0x27] @ ''...'' @ [CHR 0x27] @ '' or regexp_like)''),
                                 AtDepth = sel.depth s\<rparr>]
                        }
                      else Some []);
                   Some (timeIssue @ measureIssue)
                 }
             }
         }
     }"

fun validateSelects :: "strings_pkg \<Rightarrow> token list \<Rightarrow> sel list \<Rightarrow> Issue list \<Rightarrow> Issue list option" where
  "validateSelects L toks [] issues = Some issues"
| "validateSelects L toks (s # selects) issues =
     do {
       new \<leftarrow> validateSelect L toks s;
       validateSelects L toks selects (issues @ new)
     }"

text \<open>\<^verbatim>\<open>Validate\<close> after the lexer, and \<^verbatim>\<open>Validate\<close> itself.\<close>

definition validateTokens :: "strings_pkg \<Rightarrow> token list \<Rightarrow> (bool \<times> Issue list) option" where
  "validateTokens L toks =
     do {
       selects \<leftarrow> collectSelects toks 0 [];
       issues \<leftarrow> validateSelects L toks selects [];
       Some (length issues = 0, issues)
     }"

definition Validate :: "strings_pkg \<Rightarrow> string \<Rightarrow> (bool \<times> Issue list) option" where
  "Validate L sql =
     do {
       src \<leftarrow> stripComments sql;
       toks \<leftarrow> lex L src;
       validateTokens L toks
     }"

section \<open>Concrete queries\<close>

text \<open>
  Two queries whose string literal contains a comment marker, and what is left of both
  once the comments are stripped.
\<close>

definition query_dashes_in_literal :: string where
  "query_dashes_in_literal =
     ''SELECT * FROM mydb.s1 WHERE measure_name = '' @ [CHR 0x27] @ ''a--b'' @ [CHR 0x27] @ '' AND time > ago(1h)''"

definition query_block_in_literal :: string where
  "query_block_in_literal =
     ''SELECT * FROM mydb.s1 WHERE measure_name = '' @ [CHR 0x27] @ ''a/*b'' @ [CHR 0x27] @ '' AND time > ago(1h)''"

definition query_cut_literal :: string where
  "query_cut_literal =
     ''SELECT * FROM mydb.s1 WHERE measure_name = '' @ [CHR 0x27] @ ''a''"

text \<open>A query that bounds \<open>measure_time\<close> instead of \<open>time\<close>.\<close>

definition query_measure_time :: string where
  "query_measure_time =
     ''SELECT * FROM mydb.s1 WHERE measure_time > ago(1h) AND measure_name = '' @ [CHR 0x27] @ ''x'' @ [CHR 0x27]"

text \<open>A query without a FROM clause.\<close>

definition query_select_1 :: string where
  "query_select_1 = ''SELECT 1''"




text \<open>A query that uses \<open>measure_name\<close> once with \<open>=\<close> and once with \<open>!=\<close>.\<close>

definition query_mixed_measure_name :: string where
  "query_mixed_measure_name =
     ''SELECT * FROM mydb.sensors WHERE time > 10 AND measure_name = '' @ [CHR 0x27] @ ''foo'' @ [CHR 0x27] @ '' AND measure_name != '' @ [CHR 0x27] @ ''bar'' @ [CHR 0x27]"

text \<open>A parenthesized group with a nested one.\<close>

definition query_nested_groups :: string where
  "query_nested_groups = ''(a (b) c)''"

section \<open>The vocabulary of the properties\<close>

text \<open>
  The cut points of a WHERE span \<open>[start, stop)\<close>: the indices of the \<open>or\<close> keywords at the
  depth \<open>dp\<close> of the select-site, in order; and the branches that a list of cut points
  leaves between \<open>start\<close> and \<open>stop\<close>.
\<close>

definition isOrAt :: "token list \<Rightarrow> int \<Rightarrow> int \<Rightarrow> bool" where
  "isOrAt toks dp i =
     (token.depth (toks ! nat i) = dp \<and> kind (toks ! nat i) = tkKeyword \<and>
      val (toks ! nat i) = ''or'')"

definition orCuts :: "token list \<Rightarrow> int \<Rightarrow> int \<Rightarrow> int \<Rightarrow> int list" where
  "orCuts toks start stop dp = filter (isOrAt toks dp) [start..min stop (len toks) - 1]"

definition branchesBetween :: "int \<Rightarrow> int list \<Rightarrow> int \<Rightarrow> (int \<times> int) list" where
  "branchesBetween start cuts stop = zip (start # map (\<lambda>c. c + 1) cuts) (cuts @ [stop])"

text \<open>
  What one round of the lexer's main loop does to the depth: it appends the tokens \<open>ts\<close>
  (none for white space, one otherwise) and moves the depth from \<open>dp\<close> to \<open>dp'\<close>. A token
  that is not one of the two parentheses is either no symbol at all or a symbol whose
  text is the lower-cased form of something other than a parenthesis.
\<close>

definition emits :: "strings_pkg \<Rightarrow> int \<Rightarrow> token list \<Rightarrow> int \<Rightarrow> bool" where
  "emits L dp ts dp' \<longleftrightarrow>
     (ts = [] \<and> dp' = dp) \<or>
     (ts = [\<lparr>val = ''('', kind = tkSymbol, depth = dp\<rparr>] \<and> dp' = dp + 1) \<or>
     (ts = [\<lparr>val = '')'', kind = tkSymbol, depth = max 0 (dp - 1)\<rparr>] \<and> dp' = max 0 (dp - 1)) \<or>
     (\<exists>t. ts = [t] \<and> token.depth t = dp \<and> dp' = dp \<and>
          (kind t \<noteq> tkSymbol \<or> (\<exists>x. val t = ToLower L x \<and> x \<noteq> ''('' \<and> x \<noteq> '')'')))"

text \<open>The token sequences that a run of such rounds from the depth \<open>dp\<close> can produce.\<close>

inductive lexed :: "strings_pkg \<Rightarrow> int \<Rightarrow> token list \<Rightarrow> bool" for L where
  lexed_Nil: "lexed L dp []"
| lexed_step: "emits L dp ts dp' \<Longrightarrow> lexed L dp' rest \<Longrightarrow> lexed L dp (ts @ rest)"

text \<open>
  The depth discipline of a token sequence, read from left to right with the depth \<open>dp\<close>
  in effect before its first token: a \<open>(\<close> carries the depth in effect and raises it by
  one for what follows, a \<open>)\<close> lowers the depth in effect by one, not below zero, and
  carries the lowered depth; every other token carries the depth in effect.
\<close>

definition is_lparen :: "token \<Rightarrow> bool" where
  "is_lparen t = (kind t = tkSymbol \<and> val t = ''('')"

definition is_rparen :: "token \<Rightarrow> bool" where
  "is_rparen t = (kind t = tkSymbol \<and> val t = '')'')"

fun depth_chain :: "int \<Rightarrow> token list \<Rightarrow> bool" where
  "depth_chain dp [] = True"
| "depth_chain dp (t # ts) =
     (if is_rparen t then token.depth t = max 0 (dp - 1) \<and> depth_chain (token.depth t) ts
      else token.depth t = dp \<and> depth_chain (if is_lparen t then dp + 1 else dp) ts)"

text \<open>
  The tokens between the two delimiters of a group: \<open>balanced n\<close> holds of a sequence that
  closes \<open>n\<close> parentheses more than it opens and never closes one that is not open, and
  \<open>directly_inside n\<close> keeps the tokens that are not inside a nested group, the delimiters
  of the nested groups among them (\<open>n\<close> is the number of nested groups that are open).
\<close>

fun balanced :: "nat \<Rightarrow> token list \<Rightarrow> bool" where
  "balanced n [] = (n = 0)"
| "balanced n (t # ts) =
     (if is_lparen t then balanced (Suc n) ts
      else if is_rparen t then 0 < n \<and> balanced (n - 1) ts
      else balanced n ts)"

fun directly_inside :: "nat \<Rightarrow> token list \<Rightarrow> token list" where
  "directly_inside n [] = []"
| "directly_inside n (t # ts) =
     (if is_lparen t then (if n = 0 then [t] else []) @ directly_inside (Suc n) ts
      else if is_rparen t then (if n = 1 then [t] else []) @ directly_inside (n - 1) ts
      else (if n = 0 then [t] else []) @ directly_inside n ts)"

text \<open>
  The one fact about \<^verbatim>\<open>strings.ToLower\<close> that the depth discipline needs: lower-casing
  never turns another text into a parenthesis.
\<close>

definition paren_safe :: "strings_pkg \<Rightarrow> bool" where
  "paren_safe L \<longleftrightarrow>
     (\<forall>x. ToLower L x = ''('' \<longrightarrow> x = ''('') \<and> (\<forall>x. ToLower L x = '')'' \<longrightarrow> x = '')'')"

text \<open>
  A \<open>from\<close> keyword is visible from the index \<open>i\<close> at the depth \<open>dp\<close> when it stands at that
  depth at or after \<open>i\<close> and no token from \<open>i\<close> up to it is at a smaller depth.
\<close>

definition fromVisibleAfter :: "token list \<Rightarrow> int \<Rightarrow> int \<Rightarrow> bool" where
  "fromVisibleAfter toks i dp \<longleftrightarrow>
     (\<exists>j. i \<le> j \<and> j < len toks \<and>
          kind (toks ! nat j) = tkKeyword \<and> val (toks ! nat j) = ''from'' \<and>
          token.depth (toks ! nat j) = dp \<and>
          (\<forall>k. i \<le> k \<and> k < j \<longrightarrow> dp \<le> token.depth (toks ! nat k)))"



text \<open>
  The two shapes that count as a valid use of \<open>measure_name\<close> in a branch that ends at
  \<open>stop\<close>: the three tokens \<open>measure_name = 'literal'\<close> from the index \<open>i\<close>, and the six tokens
  \<open>regexp_like ( measure_name , 'literal' )\<close> from \<open>i\<close>, all of them inside the branch. A
  valid occurrence of a branch is a shape that starts in it; a stray \<open>measure_name\<close> is an
  identifier \<open>measure_name\<close> of the branch that neither starts the first shape nor is the
  third token of the second one.
\<close>

definition tokenIs :: "token list \<Rightarrow> int \<Rightarrow> tokenKind \<Rightarrow> string \<Rightarrow> bool" where
  "tokenIs toks i k v \<longleftrightarrow> kind (toks ! nat i) = k \<and> val (toks ! nat i) = v"

definition equalsShapeAt :: "token list \<Rightarrow> int \<Rightarrow> int \<Rightarrow> bool" where
  "equalsShapeAt toks stop i \<longleftrightarrow>
     0 \<le> i \<and> i + 2 < stop \<and> i + 2 < len toks \<and>
     tokenIs toks i tkIdent ''measure_name'' \<and>
     tokenIs toks (i + 1) tkSymbol ''='' \<and>
     kind (toks ! nat (i + 2)) = tkString"

definition regexpShapeAt :: "token list \<Rightarrow> int \<Rightarrow> int \<Rightarrow> bool" where
  "regexpShapeAt toks stop i \<longleftrightarrow>
     0 \<le> i \<and> i + 5 < stop \<and> i + 5 < len toks \<and>
     tokenIs toks i tkIdent ''regexp_like'' \<and>
     tokenIs toks (i + 1) tkSymbol ''('' \<and>
     tokenIs toks (i + 2) tkIdent ''measure_name'' \<and>
     tokenIs toks (i + 3) tkSymbol '','' \<and>
     kind (toks ! nat (i + 4)) = tkString \<and>
     tokenIs toks (i + 5) tkSymbol '')''"

definition validOccurrence :: "token list \<Rightarrow> int \<Rightarrow> int \<Rightarrow> int \<Rightarrow> bool" where
  "validOccurrence toks start stop i \<longleftrightarrow>
     start \<le> i \<and> (equalsShapeAt toks stop i \<or> regexpShapeAt toks stop i)"

definition strayMeasureName :: "token list \<Rightarrow> int \<Rightarrow> int \<Rightarrow> int \<Rightarrow> bool" where
  "strayMeasureName toks start stop k \<longleftrightarrow>
     start \<le> k \<and> k < stop \<and> k < len toks \<and>
     tokenIs toks k tkIdent ''measure_name'' \<and>
     \<not> equalsShapeAt toks stop k \<and>
     \<not> (start \<le> k - 2 \<and> regexpShapeAt toks stop (k - 2))"

section \<open>Auxiliary facts: no index is out of range\<close>

lemma at_in_range [simp]: "0 \<le> i \<Longrightarrow> i < len xs \<Longrightarrow> at xs i = Some (xs ! nat i)"
  by (simp add: at_def)

lemma slice_in_range [simp]:
  "0 \<le> i \<Longrightarrow> i \<le> j \<Longrightarrow> j \<le> len xs \<Longrightarrow> slice xs i j = Some (take (nat (j - i)) (drop (nat i) xs))"
  by (simp add: slice_def)

lemma findNextKeywordBetweenAtDepth_loop_result:
  "0 \<le> i \<Longrightarrow>
   \<exists>r. findNextKeywordBetweenAtDepth_loop toks i stop dp word = Some r \<and>
       (r = - 1 \<or> i \<le> r \<and> r < len toks \<and> r < stop)"
proof (induction "nat (len toks - i)" arbitrary: i rule: less_induct)
  case less
  show ?case
  proof (cases "i < stop \<and> i < len toks")
    case False
    then show ?thesis
      by (subst findNextKeywordBetweenAtDepth_loop.simps [of toks i stop dp word]) auto
  next
    case True
    have "\<exists>r. findNextKeywordBetweenAtDepth_loop toks (i + 1) stop dp word = Some r \<and>
        (r = - 1 \<or> i + 1 \<le> r \<and> r < len toks \<and> r < stop)"
      using less(1) [of "i + 1"] less(2) True by simp
    then obtain r where "findNextKeywordBetweenAtDepth_loop toks (i + 1) stop dp word = Some r"
      "r = - 1 \<or> i + 1 \<le> r \<and> r < len toks \<and> r < stop"
      by blast
    then show ?thesis
      by (subst findNextKeywordBetweenAtDepth_loop.simps [of toks i stop dp word])
         (use True less(2) in \<open>auto\<close>)
  qed
qed

lemma findNextKeywordBetweenAtDepth_result:
  "0 \<le> start \<Longrightarrow>
   \<exists>r. findNextKeywordBetweenAtDepth toks start stop dp word = Some r \<and>
       (r = - 1 \<or> start \<le> r \<and> r < len toks)"
  using findNextKeywordBetweenAtDepth_loop_result [of start toks]
  by (fastforce simp: findNextKeywordBetweenAtDepth_def Let_def)

lemma findNextTerminatorAtDepth_result:
  "0 \<le> i \<Longrightarrow>
   \<exists>r. findNextTerminatorAtDepth toks i dp = Some r \<and> 0 \<le> r \<and> r \<le> len toks"
proof (induction "nat (len toks - i)" arbitrary: i rule: less_induct)
  case less
  show ?case
  proof (cases "i < len toks")
    case False
    then show ?thesis
      by (subst findNextTerminatorAtDepth.simps [of toks i dp]) auto
  next
    case True
    have "\<exists>r. findNextTerminatorAtDepth toks (i + 1) dp = Some r \<and> 0 \<le> r \<and> r \<le> len toks"
      using less(1) [of "i + 1"] less(2) True by simp
    then obtain r where "findNextTerminatorAtDepth toks (i + 1) dp = Some r" "0 \<le> r" "r \<le> len toks"
      by blast
    then show ?thesis
      by (subst findNextTerminatorAtDepth.simps [of toks i dp])
         (use True less(2) in \<open>simp\<close>)
  qed
qed

lemma skipOtherDepth_result:
  "0 \<le> j \<Longrightarrow> \<exists>r. skipOtherDepth toks j stop dp = Some r \<and> j \<le> r"
proof (induction "nat (len toks - j)" arbitrary: j rule: less_induct)
  case less
  show ?case
  proof (cases "j < stop \<and> j < len toks")
    case False
    then show ?thesis
      by (subst skipOtherDepth.simps [of toks j stop dp]) auto
  next
    case True
    have "\<exists>r. skipOtherDepth toks (j + 1) stop dp = Some r \<and> j + 1 \<le> r"
      using less(1) [of "j + 1"] less(2) True by simp
    then obtain r where "skipOtherDepth toks (j + 1) stop dp = Some r" "j + 1 \<le> r"
      by blast
    then show ?thesis
      by (subst skipOtherDepth.simps [of toks j stop dp])
         (use True less(2) in \<open>simp\<close>)
  qed
qed

lemma fromStart_advance_result:
  "0 \<le> i \<Longrightarrow>
   \<exists>r. fromStart_advance toks i stop dp = Some r \<and> (\<forall>k. r = Inr k \<longrightarrow> i \<le> k)"
proof (induction "nat (len toks - i)" arbitrary: i rule: less_induct)
  case less
  show ?case
  proof (cases "i < stop \<and> i < len toks")
    case False
    then show ?thesis
      by (subst fromStart_advance.simps [of toks i stop dp]) auto
  next
    case True
    have "\<exists>r. fromStart_advance toks (i + 1) stop dp = Some r \<and> (\<forall>k. r = Inr k \<longrightarrow> i + 1 \<le> k)"
      using less(1) [of "i + 1"] less(2) True by simp
    then obtain r where "fromStart_advance toks (i + 1) stop dp = Some r" "\<forall>k. r = Inr k \<longrightarrow> i + 1 \<le> k"
      by blast
    then show ?thesis
      by (subst fromStart_advance.simps [of toks i stop dp])
         (use True less(2) in \<open>auto\<close>)
  qed
qed

lemma fromStart_seekIdent_total:
  "0 \<le> k \<Longrightarrow> \<exists>r. fromStart_seekIdent toks k stop dp = Some r"
proof (induction "nat (len toks - k)" arbitrary: k rule: less_induct)
  case less
  show ?case
  proof (cases "k < stop \<and> k < len toks")
    case False
    then show ?thesis
      by (subst fromStart_seekIdent.simps [of toks k stop dp]) auto
  next
    case True
    have "\<exists>r. fromStart_seekIdent toks (k + 1) stop dp = Some r"
      using less(1) [of "k + 1"] less(2) True by simp
    then show ?thesis
      by (subst fromStart_seekIdent.simps [of toks k stop dp])
         (use True less(2) in \<open>auto\<close>)
  qed
qed

lemma fromStart_seekDot_total:
  "0 \<le> j \<Longrightarrow> \<exists>r. fromStart_seekDot toks j stop dp = Some r"
proof (induction "nat (len toks - j)" arbitrary: j rule: less_induct)
  case less
  show ?case
  proof (cases "j < stop \<and> j < len toks")
    case False
    then show ?thesis
      by (subst fromStart_seekDot.simps [of toks j stop dp]) auto
  next
    case True
    have "\<exists>r. fromStart_seekDot toks (j + 1) stop dp = Some r"
      using less(1) [of "j + 1"] less(2) True by simp
    moreover have "\<exists>r. fromStart_seekIdent toks (j + 1) stop dp = Some r"
      using fromStart_seekIdent_total [of "j + 1"] less(2) by simp
    ultimately show ?thesis
      by (subst fromStart_seekDot.simps [of toks j stop dp])
         (use True less(2) in \<open>auto\<close>)
  qed
qed

lemma stripQuotes_total: "\<exists>r. stripQuotes L s = Some r"
  by (cases "2 \<le> len s") (auto simp: stripQuotes_def andalso_def at_def slice_def)

lemma fromStartsWithBaseTable_total:
  assumes "0 \<le> start"
  shows "\<exists>r. fromStartsWithBaseTable L toks start stop dp = Some r"
proof -
  obtain r where r: "fromStart_advance toks start stop dp = Some r" "\<forall>k. r = Inr k \<longrightarrow> start \<le> k"
    using fromStart_advance_result [OF assms] by blast
  show ?thesis
  proof (cases r)
    case (Inl b)
    with r show ?thesis by (simp add: fromStartsWithBaseTable_def)
  next
    case (Inr i)
    with r assms have i: "0 \<le> i" by simp
    show ?thesis
    proof (cases "i \<ge> stop \<or> i \<ge> len toks")
      case True
      with r Inr show ?thesis by (auto simp: fromStartsWithBaseTable_def orelse_def)
    next
      case False
      obtain name where name: "stripQuotes L (val (toks ! nat i)) = Some name"
        using stripQuotes_total by blast
      obtain j where j: "skipOtherDepth toks (i + 1) stop dp = Some j" "i + 1 \<le> j"
        using skipOtherDepth_result [of "i + 1"] i by force
      obtain b where b: "fromStart_seekDot toks (i + 1) stop dp = Some b"
        using fromStart_seekDot_total [of "i + 1"] i by force
      from False r Inr i name j b show ?thesis
        by (auto simp: fromStartsWithBaseTable_def orelse_def andalso_def)
    qed
  qed
qed

lemma isTimeIdentifierAt_total: "\<exists>r. isTimeIdentifierAt toks i = Some r"
  by (auto simp: isTimeIdentifierAt_def at_def)

lemma timeOperatorFollows_total:
  assumes "0 \<le> i" "i < len toks"
  shows "\<exists>r. timeOperatorFollows toks stop i = Some r"
proof -
  obtain j where j: "skipOtherDepth toks (i + 1) stop (token.depth (toks ! nat i)) = Some j" "i + 1 \<le> j"
    using skipOtherDepth_result [of "i + 1"] assms by force
  obtain k where k: "skipOtherDepth toks (j + 1) stop (token.depth (toks ! nat i)) = Some k" "j + 1 \<le> k"
    using skipOtherDepth_result [of "j + 1"] assms j by force
  from assms j k show ?thesis
    by (auto simp: timeOperatorFollows_def andalso_def Let_def)
qed

lemma timeLookback_total:
  "0 \<le> start \<Longrightarrow> k < len toks \<Longrightarrow> \<exists>r. timeLookback toks start i dp k = Some r"
proof (induction "nat (k - (i - 7))" arbitrary: k rule: less_induct)
  case less
  show ?case
  proof (cases "k \<ge> start \<and> k \<ge> i - 6")
    case False
    then show ?thesis
      by (subst timeLookback.simps [of toks start i dp k]) auto
  next
    case True
    have "\<exists>r. timeLookback toks start i dp (k - 1) = Some r"
      using less(1) [of "k - 1"] less(2,3) True by simp
    moreover obtain b where "isTimeIdentifierAt toks k = Some b"
      using isTimeIdentifierAt_total by blast
    ultimately show ?thesis
      by (subst timeLookback.simps [of toks start i dp k])
         (use True less(2,3) in \<open>auto simp: andalso_def\<close>)
  qed
qed

lemma whereHasTimePredicate_loop_total:
  "0 \<le> start \<Longrightarrow> start \<le> i \<Longrightarrow> \<exists>r. whereHasTimePredicate_loop toks start stop i = Some r"
proof (induction "nat (len toks - i)" arbitrary: i rule: less_induct)
  case less
  show ?case
  proof (cases "i < stop \<and> i < len toks")
    case False
    then show ?thesis
      by (subst whereHasTimePredicate_loop.simps [of toks start stop i]) auto
  next
    case True
    have "\<exists>r. whereHasTimePredicate_loop toks start stop (i + 1) = Some r"
      using less(1) [of "i + 1"] less(2,3) True by simp
    moreover obtain b where "isTimeIdentifierAt toks i = Some b"
      using isTimeIdentifierAt_total by blast
    moreover obtain f where "timeOperatorFollows toks stop i = Some f"
      using timeOperatorFollows_total [of i toks stop] less(2,3) True by auto
    moreover obtain l where
      "timeLookback toks start i (token.depth (toks ! nat i)) (i - 1) = Some l"
      using timeLookback_total [of start "i - 1" toks i] less(2) True by auto
    ultimately show ?thesis
      by (subst whereHasTimePredicate_loop.simps [of toks start stop i])
         (use True less(2,3) in \<open>auto simp: andalso_def\<close>)
  qed
qed

lemma whereHasTimePredicate_total:
  "0 \<le> start \<Longrightarrow> \<exists>r. whereHasTimePredicate toks start stop = Some r"
  using whereHasTimePredicate_loop_total [of start start toks]
  by (simp add: whereHasTimePredicate_def Let_def)

lemma regexpLikeAt_total: "0 \<le> i \<Longrightarrow> i + 5 < len toks \<Longrightarrow> \<exists>r. regexpLikeAt toks i = Some r"
  by (auto simp: regexpLikeAt_def)

lemma measureEqualsAt_total: "0 \<le> i \<Longrightarrow> i + 2 < len toks \<Longrightarrow> \<exists>r. measureEqualsAt toks i = Some r"
  by (auto simp: measureEqualsAt_def)

lemma whereHasMeasureNamePredicate_loop_total:
  "0 \<le> i \<Longrightarrow> \<exists>r. whereHasMeasureNamePredicate_loop toks stop i fv fi = Some r"
proof (induction "nat (len toks - i)" arbitrary: i fv fi rule: less_induct)
  case less
  show ?case
  proof (cases "i < stop \<and> i < len toks")
    case False
    then show ?thesis
      by (subst whereHasMeasureNamePredicate_loop.simps [of toks stop i fv fi]) auto
  next
    case True
    have step: "\<exists>r. whereHasMeasureNamePredicate_loop toks stop j v w = Some r" if "i < j" for j v w
      using less(1) [of j v w] less(2) True that by simp
    have r: "\<exists>r. regexpLikeAt toks i = Some r" if "i + 5 < len toks"
      using regexpLikeAt_total [of i toks] less(2) that by simp
    have m: "\<exists>r. measureEqualsAt toks i = Some r" if "i + 2 < len toks"
      using measureEqualsAt_total [of i toks] less(2) that by simp
    show ?thesis
      by (subst whereHasMeasureNamePredicate_loop.simps [of toks stop i fv fi])
         (use True less(2) r m in \<open>auto simp: andalso_def step\<close>)
  qed
qed

lemma whereHasMeasureNamePredicate_total:
  "0 \<le> start \<Longrightarrow> \<exists>r. whereHasMeasureNamePredicate toks start stop = Some r"
  using whereHasMeasureNamePredicate_loop_total [of start toks]
  by (simp add: whereHasMeasureNamePredicate_def Let_def)

section \<open>Auxiliary facts: the branches of a WHERE span\<close>

lemma branchesBetween_Nil [simp]: "branchesBetween start [] stop = [(start, stop)]"
  by (simp add: branchesBetween_def)

lemma branchesBetween_Cons [simp]:
  "branchesBetween start (c # cuts) stop = (start, c) # branchesBetween (c + 1) cuts stop"
  by (simp add: branchesBetween_def)

lemma findTopLevelOrBranches_loop_eq:
  "0 \<le> i \<Longrightarrow>
   findTopLevelOrBranches_loop toks i stop dp cur acc =
     Some (acc @ branchesBetween cur (orCuts toks i stop dp) stop)"
proof (induction "nat (len toks - i)" arbitrary: i cur acc rule: less_induct)
  case less
  show ?case
  proof (cases "i < stop \<and> i < len toks")
    case False
    then have "orCuts toks i stop dp = []"
      by (auto simp: orCuts_def)
    with False show ?thesis
      by (subst findTopLevelOrBranches_loop.simps [of toks i stop dp cur acc]) auto
  next
    case True
    have step: "findTopLevelOrBranches_loop toks (i + 1) stop dp c a =
        Some (a @ branchesBetween c (orCuts toks (i + 1) stop dp) stop)" for c a
      using less(1) [of "i + 1" c a] less(2) True by simp
    from True have cuts: "orCuts toks i stop dp =
        (if isOrAt toks dp i then i # orCuts toks (i + 1) stop dp else orCuts toks (i + 1) stop dp)"
      by (simp add: orCuts_def upto_rec1 [of i])
    show ?thesis
      by (subst findTopLevelOrBranches_loop.simps [of toks i stop dp cur acc])
         (use True less(2) in \<open>simp add: step cuts isOrAt_def\<close>)
  qed
qed

lemma findTopLevelOrBranches_eq:
  "0 \<le> start \<Longrightarrow>
   findTopLevelOrBranches toks start stop dp =
     (let stop = (if stop < 0 then len toks else stop)
      in Some (branchesBetween start (orCuts toks start stop dp) stop))"
  by (simp add: findTopLevelOrBranches_def Let_def findTopLevelOrBranches_loop_eq)

lemma set_orCuts:
  "set (orCuts toks start stop dp) = {i. start \<le> i \<and> i < stop \<and> i < len toks \<and> isOrAt toks dp i}"
  by (auto simp: orCuts_def)

lemma branchesBetween_starts:
  "lo \<le> start \<Longrightarrow> \<forall>c\<in>set cuts. lo \<le> c \<Longrightarrow> \<forall>(a, b)\<in>set (branchesBetween start cuts stop). lo \<le> a"
proof (induction cuts arbitrary: start)
  case Nil
  then show ?case by simp
next
  case (Cons c cuts)
  from Cons.prems have "lo \<le> c + 1" by simp
  from Cons.IH [OF this] Cons.prems show ?case by simp
qed

lemma length_branchesBetween [simp]: "length (branchesBetween start cuts stop) = Suc (length cuts)"
  by (simp add: branchesBetween_def)

section \<open>Auxiliary facts: Validate returns\<close>

lemma snippetAroundTokens_loop_total:
  "0 \<le> i \<Longrightarrow> stop \<le> len toks \<Longrightarrow> \<exists>r. snippetAroundTokens_loop toks i stop b = Some r"
proof (induction "nat (stop - i)" arbitrary: i b rule: less_induct)
  case less
  show ?case
  proof (cases "i < stop")
    case False
    then show ?thesis
      by (subst snippetAroundTokens_loop.simps [of toks i stop b]) auto
  next
    case True
    have step: "\<exists>r. snippetAroundTokens_loop toks (i + 1) stop b' = Some r" for b'
      using less(1) [of "i + 1" b'] less(2,3) True by simp
    show ?thesis
      by (subst snippetAroundTokens_loop.simps [of toks i stop b])
         (use True less(2,3) in \<open>simp add: step Let_def\<close>)
  qed
qed

lemma snippetAroundTokens_total: "\<exists>r. snippetAroundTokens L toks start stop = Some r"
proof -
  have "\<exists>r. snippetAroundTokens_loop toks (if start < 0 then 0 else start)
      (if stop < 0 \<or> stop > len toks then len toks else stop) [] = Some r"
    by (rule snippetAroundTokens_loop_total) auto
  then show ?thesis
    by (auto simp: snippetAroundTokens_def Let_def)
qed

lemma collectSelects_result:
  "0 \<le> i \<Longrightarrow> \<forall>s\<in>set acc. 0 \<le> selIdx s \<Longrightarrow>
   \<exists>r. collectSelects toks i acc = Some r \<and> (\<forall>s\<in>set r. 0 \<le> selIdx s)"
proof (induction "nat (len toks - i)" arbitrary: i acc rule: less_induct)
  case less
  show ?case
  proof (cases "i < len toks")
    case False
    with less(3) show ?thesis
      by (subst collectSelects.simps [of toks i acc]) auto
  next
    case True
    have step: "\<exists>r. collectSelects toks (i + 1) a = Some r \<and> (\<forall>s\<in>set r. 0 \<le> selIdx s)"
      if "\<forall>s\<in>set a. 0 \<le> selIdx s" for a
      using less(1) [of "i + 1" a] less(2) True that by simp
    show ?thesis
      by (subst collectSelects.simps [of toks i acc])
         (use True less(2,3) in \<open>simp add: step\<close>)
  qed
qed

lemma checkBranches_total:
  "\<forall>(a, b)\<in>set branches. 0 \<le> a \<Longrightarrow> \<exists>r. checkBranches toks branches t m = Some r"
proof (induction branches arbitrary: t m)
  case Nil
  then show ?case by simp
next
  case (Cons br branches)
  obtain a b where br: "br = (a, b)" by (cases br)
  with Cons.prems have a: "0 \<le> a" by simp
  obtain ht where ht: "whereHasTimePredicate toks a b = Some ht"
    using whereHasTimePredicate_total [OF a] by blast
  obtain hm where hm: "whereHasMeasureNamePredicate toks a b = Some hm"
    using whereHasMeasureNamePredicate_total [OF a] by blast
  from Cons.prems have "\<forall>(a, b)\<in>set branches. 0 \<le> a" by simp
  from Cons.IH [OF this] show ?case
    by (simp add: br ht hm)
qed

lemma findNextKeywordAtDepth_result:
  "0 \<le> i \<Longrightarrow>
   \<exists>r. findNextKeywordAtDepth toks i dp word = Some r \<and> (r = - 1 \<or> i \<le> r \<and> r < len toks)"
proof (induction "nat (len toks - i)" arbitrary: i rule: less_induct)
  case less
  show ?case
  proof (cases "i < len toks")
    case False
    then show ?thesis
      by (subst findNextKeywordAtDepth.simps [of toks i dp word]) simp
  next
    case True
    have "\<exists>r. findNextKeywordAtDepth toks (i + 1) dp word = Some r \<and>
        (r = - 1 \<or> i + 1 \<le> r \<and> r < len toks)"
      using less(1) [of "i + 1"] less(2) True by simp
    then obtain r where "findNextKeywordAtDepth toks (i + 1) dp word = Some r"
      "r = - 1 \<or> i + 1 \<le> r \<and> r < len toks"
      by blast
    then show ?thesis
      by (subst findNextKeywordAtDepth.simps [of toks i dp word])
         (use True less(2) in \<open>auto\<close>)
  qed
qed

lemma findTopLevelOrBranches_result:
  assumes "0 \<le> start"
  shows "\<exists>bs. findTopLevelOrBranches toks start stop dp = Some bs \<and> (\<forall>(a, b)\<in>set bs. 0 \<le> a)"
proof -
  define stop' where "stop' = (if stop < 0 then len toks else stop)"
  have "\<forall>c\<in>set (orCuts toks start stop' dp). 0 \<le> c"
    using assms by (auto simp: set_orCuts)
  from branchesBetween_starts [OF assms this, of stop'] show ?thesis
    by (simp add: findTopLevelOrBranches_eq [OF assms] Let_def stop'_def)
qed

lemma validateSelect_total:
  assumes "0 \<le> selIdx s"
  shows "\<exists>r. validateSelect L toks s = Some r"
proof -
  obtain fromIdx where f: "findNextKeywordAtDepth toks (selIdx s + 1) (sel.depth s) ''from'' = Some fromIdx"
    "fromIdx = - 1 \<or> selIdx s + 1 \<le> fromIdx"
    using findNextKeywordAtDepth_result [of "selIdx s + 1" toks] assms by force
  show ?thesis
  proof (cases "fromIdx = - 1")
    case True
    with f show ?thesis by (simp add: validateSelect_def)
  next
    case False
    with f assms have f0: "0 \<le> fromIdx + 1" by simp
    obtain stopIdx where st: "findNextTerminatorAtDepth toks (fromIdx + 1) (sel.depth s) = Some stopIdx"
      using findNextTerminatorAtDepth_result [OF f0] by blast
    obtain hitsDB where h: "fromStartsWithBaseTable L toks (fromIdx + 1) stopIdx (sel.depth s) = Some hitsDB"
      using fromStartsWithBaseTable_total [OF f0] by blast
    show ?thesis
    proof (cases hitsDB)
      case False
      with f \<open>fromIdx \<noteq> - 1\<close> st h show ?thesis by (simp add: validateSelect_def)
    next
      case True
      obtain whereIdx where w:
        "findNextKeywordBetweenAtDepth toks (fromIdx + 1) stopIdx (sel.depth s) ''where'' = Some whereIdx"
        "whereIdx = - 1 \<or> fromIdx + 1 \<le> whereIdx"
        using findNextKeywordBetweenAtDepth_result [OF f0] by blast
      show ?thesis
      proof (cases "whereIdx = - 1")
        case True
        obtain sn where "snippetAroundTokens L toks (selIdx s) stopIdx = Some sn"
          using snippetAroundTokens_total by blast
        with f \<open>fromIdx \<noteq> - 1\<close> st h \<open>hitsDB\<close> w True show ?thesis
          by (simp add: validateSelect_def)
      next
        case False
        with w f0 have w0: "0 \<le> whereIdx + 1" by simp
        obtain whereStop where ws:
          "findNextTerminatorAtDepth toks (whereIdx + 1) (sel.depth s) = Some whereStop"
          using findNextTerminatorAtDepth_result [OF w0] by blast
        obtain branches where br:
          "findTopLevelOrBranches toks (whereIdx + 1) whereStop (sel.depth s) = Some branches"
          "\<forall>(a, b)\<in>set branches. 0 \<le> a"
          using findTopLevelOrBranches_result [OF w0] by blast
        obtain flags where cb: "checkBranches toks branches False False = Some flags"
          using checkBranches_total [OF br(2)] by blast
        obtain sn where sn: "snippetAroundTokens L toks (selIdx s) whereStop = Some sn"
          using snippetAroundTokens_total by blast
        from f \<open>fromIdx \<noteq> - 1\<close> st h \<open>hitsDB\<close> w False ws br(1) cb sn show ?thesis
          by (cases flags) (simp add: validateSelect_def Let_def)
      qed
    qed
  qed
qed

lemma validateSelects_total:
  "\<forall>s\<in>set selects. 0 \<le> selIdx s \<Longrightarrow> \<exists>r. validateSelects L toks selects issues = Some r"
proof (induction selects arbitrary: issues)
  case Nil
  then show ?case by simp
next
  case (Cons s selects)
  from Cons.prems have "0 \<le> selIdx s" by simp
  then obtain new where "validateSelect L toks s = Some new"
    using validateSelect_total by blast
  moreover from Cons.prems have "\<forall>s\<in>set selects. 0 \<le> selIdx s" by simp
  from Cons.IH [OF this] have "\<exists>r. validateSelects L toks selects (issues @ new) = Some r" .
  ultimately show ?case by simp
qed

lemma validateTokens_total: "\<exists>issues. validateTokens L toks = Some (issues = [], issues)"
proof -
  obtain selects where s: "collectSelects toks 0 [] = Some selects" "\<forall>s\<in>set selects. 0 \<le> selIdx s"
    using collectSelects_result [of 0 "[]" toks] by auto
  obtain issues where "validateSelects L toks selects [] = Some issues"
    using validateSelects_total [OF s(2)] by blast
  with s(1) show ?thesis by (simp add: validateTokens_def)
qed

lemma stripComments_loop_total: "0 \<le> i \<Longrightarrow> \<exists>r. stripComments_loop s i inLine inBlock out = Some r"
proof (induction "nat (len s - i)" arbitrary: i inLine inBlock out rule: less_induct)
  case less
  show ?case
  proof (cases "i < len s")
    case False
    then show ?thesis
      by (subst stripComments_loop.simps [of s i inLine inBlock out]) simp
  next
    case True
    have step: "\<exists>r. stripComments_loop s j l b out' = Some r" if "i < j" for j l b out'
      using less(1) [of j l b out'] less(2) True that by simp
    show ?thesis
      by (subst stripComments_loop.simps [of s i inLine inBlock out])
         (use True less(2) in \<open>simp add: andalso_def step\<close>)
  qed
qed

lemma stripComments_total: "\<exists>r. stripComments s = Some r"
  by (simp add: stripComments_def stripComments_loop_total)

section \<open>Auxiliary facts: one round of the lexer\<close>

lemma string_of_byte_single: "string_of_byte r = [c] \<Longrightarrow> r = c"
  by (simp add: string_of_byte_def Let_def split: if_splits)

lemma readString_loop_total:
  "0 \<le> i \<Longrightarrow> i \<le> j \<Longrightarrow> i \<le> len s \<Longrightarrow> \<exists>str nx. readString_loop s i quote j = Some (str, nx)"
proof (induction s i quote j rule: readString_loop.induct)
  case (1 s i quote j)
  then show ?case
    by (subst readString_loop.simps [of s i quote j]) (simp add: andalso_def)
qed

lemma scan_while_total: "0 \<le> j \<Longrightarrow> \<exists>nx. scan_while p s j = Some nx"
proof (induction p s j rule: scan_while.induct)
  case (1 p s j)
  then show ?case
    by (subst scan_while.simps [of p s j]) simp
qed

lemma readString_total:
  "0 \<le> i \<Longrightarrow> i < len s \<Longrightarrow> \<exists>str nx. readString s i quote = Some (str, nx) \<and> i < nx \<and> nx \<le> len s"
  using readString_loop_total [of i "i + 1" s quote] readString_bounds [of s i quote]
  by (auto simp: readString_def)

lemma scan_while_result:
  "0 \<le> j \<Longrightarrow> j \<le> len s \<Longrightarrow> \<exists>nx. scan_while p s j = Some nx \<and> j \<le> nx \<and> nx \<le> len s"
  using scan_while_total [of j p s] scan_while_bounds [of p s j] by auto

lemma lex_loop_step:
  assumes i: "0 \<le> i" "i < len s"
  shows "\<exists>i' dp' ts. i < i' \<and> i' \<le> len s \<and> emits L dp ts dp' \<and>
           (\<forall>out. lex_loop L s i dp out = lex_loop L s i' dp' (out @ ts))"
proof -
  define r where "r = s ! nat i"
  have r: "at s i = Some r"
    using i by (simp add: r_def)
  note unfold = lex_loop.simps [of L s i dp]
  consider (space) "IsSpace r"
    | (lparen) "\<not> IsSpace r" "r = CHR ''(''"
    | (rparen) "\<not> IsSpace r" "r \<noteq> CHR ''(''" "r = CHR '')''"
    | (quote) "\<not> IsSpace r" "r \<noteq> CHR ''(''" "r \<noteq> CHR '')''" "r = CHR 0x27 \<or> r = CHR 0x22"
    | (num) "\<not> IsSpace r" "r \<noteq> CHR ''(''" "r \<noteq> CHR '')''" "\<not> (r = CHR 0x27 \<or> r = CHR 0x22)"
        "isNumStart r"
    | (ident) "\<not> IsSpace r" "r \<noteq> CHR ''(''" "r \<noteq> CHR '')''" "\<not> (r = CHR 0x27 \<or> r = CHR 0x22)"
        "\<not> isNumStart r" "isIdentStart r"
    | (sym) "\<not> IsSpace r" "r \<noteq> CHR ''(''" "r \<noteq> CHR '')''" "\<not> (r = CHR 0x27 \<or> r = CHR 0x22)"
        "\<not> isNumStart r" "\<not> isIdentStart r"
    by blast
  then show ?thesis
  proof cases
    case space
    have "\<forall>out. lex_loop L s i dp out = lex_loop L s (i + 1) dp (out @ [])"
      using i r space by (simp add: unfold)
    moreover have "emits L dp [] dp" by (simp add: emits_def)
    ultimately show ?thesis using i by (intro exI [of _ "i + 1"] exI [of _ dp] exI [of _ "[]"]) simp
  next
    case lparen
    have "\<forall>out. lex_loop L s i dp out =
        lex_loop L s (i + 1) (dp + 1) (out @ [\<lparr>val = ''('', kind = tkSymbol, depth = dp\<rparr>])"
      using i r lparen by (simp add: unfold)
    moreover have "emits L dp [\<lparr>val = ''('', kind = tkSymbol, depth = dp\<rparr>] (dp + 1)"
      by (simp add: emits_def)
    ultimately show ?thesis using i
      by (intro exI [of _ "i + 1"] exI [of _ "dp + 1"]
            exI [of _ "[\<lparr>val = ''('', kind = tkSymbol, depth = dp\<rparr>]"]) simp
  next
    case rparen
    have "\<forall>out. lex_loop L s i dp out =
        lex_loop L s (i + 1) (max 0 (dp - 1))
          (out @ [\<lparr>val = '')'', kind = tkSymbol, depth = max 0 (dp - 1)\<rparr>])"
      using i r rparen by (simp add: unfold Let_def max_def)
    moreover have "emits L dp [\<lparr>val = '')'', kind = tkSymbol, depth = max 0 (dp - 1)\<rparr>] (max 0 (dp - 1))"
      by (simp add: emits_def)
    ultimately show ?thesis using i
      by (intro exI [of _ "i + 1"] exI [of _ "max 0 (dp - 1)"]
            exI [of _ "[\<lparr>val = '')'', kind = tkSymbol, depth = max 0 (dp - 1)\<rparr>]"]) simp
  next
    case quote
    obtain str nx where rs: "readString s i r = Some (str, nx)" "i < nx" "nx \<le> len s"
      using readString_total [OF i] by blast
    define t where "t = (if r = CHR 0x22 then \<lparr>val = ToLower L str, kind = tkIdent, depth = dp\<rparr>
      else \<lparr>val = str, kind = tkString, depth = dp\<rparr>)"
    have "\<forall>out. lex_loop L s i dp out = lex_loop L s nx dp (out @ [t])"
      using i r quote rs by (simp add: unfold t_def)
    moreover have "emits L dp [t] dp" by (simp add: emits_def t_def)
    ultimately show ?thesis using rs
      by (intro exI [of _ nx] exI [of _ dp] exI [of _ "[t]"]) simp
  next
    case num
    obtain j where j: "scan_while (\<lambda>c. isNum c \<or> c = CHR ''.'') s (i + 1) = Some j"
      "i + 1 \<le> j" "j \<le> len s"
      using scan_while_result [of "i + 1" s] i by force
    define t where "t = \<lparr>val = take (nat (j - i)) (drop (nat i) s), kind = tkNumber, depth = dp\<rparr>"
    have "\<forall>out. lex_loop L s i dp out = lex_loop L s j dp (out @ [t])"
      using i r num j by (simp add: unfold t_def)
    moreover have "emits L dp [t] dp" by (simp add: emits_def t_def)
    ultimately show ?thesis using j
      by (intro exI [of _ j] exI [of _ dp] exI [of _ "[t]"]) simp
  next
    case ident
    obtain j where j: "scan_while isIdentPart s (i + 1) = Some j" "i + 1 \<le> j" "j \<le> len s"
      using scan_while_result [of "i + 1" s] i by force
    define w where "w = ToLower L (take (nat (j - i)) (drop (nat i) s))"
    define t where "t = (if w \<in> set keywords_tbl then \<lparr>val = w, kind = tkKeyword, depth = dp\<rparr>
      else \<lparr>val = w, kind = tkIdent, depth = dp\<rparr>)"
    have "\<forall>out. lex_loop L s i dp out = lex_loop L s j dp (out @ [t])"
      using i r ident j by (simp add: unfold t_def w_def Let_def)
    moreover have "emits L dp [t] dp" by (simp add: emits_def t_def)
    ultimately show ?thesis using j
      by (intro exI [of _ j] exI [of _ dp] exI [of _ "[t]"]) simp
  next
    case sym
    define two where "two \<longleftrightarrow> (r = CHR ''>'' \<or> r = CHR ''<'' \<or> r = CHR ''!'') \<and> i + 1 < len s \<and>
      ((r = CHR ''>'' \<and> s ! nat (i + 1) = CHR ''='') \<or>
       (r = CHR ''<'' \<and> (s ! nat (i + 1) = CHR ''='' \<or> s ! nat (i + 1) = CHR ''>'')) \<or>
       (r = CHR ''!'' \<and> s ! nat (i + 1) = CHR ''=''))"
    have a: "andalso ((r = CHR ''>'' \<or> r = CHR ''<'' \<or> r = CHR ''!'') \<and> i + 1 < len s)
        (map_option
           (\<lambda>n. (r = CHR ''>'' \<and> n = CHR ''='') \<or>
                (r = CHR ''<'' \<and> (n = CHR ''='' \<or> n = CHR ''>'')) \<or>
                (r = CHR ''!'' \<and> n = CHR ''=''))
           (at s (i + 1))) = Some two"
      using i by (auto simp: andalso_def two_def)
    show ?thesis
    proof (cases two)
      case True
      then have lt: "i + 1 < len s" by (simp add: two_def)
      define x where "x = take 2 (drop (nat i) s)"
      have sl: "slice s i (i + 2) = Some x"
        using i lt by (simp add: x_def)
      have lx: "length x = 2"
        using i lt by (simp add: x_def)
      define t where "t = \<lparr>val = ToLower L x, kind = tkSymbol, depth = dp\<rparr>"
      have "\<forall>out. lex_loop L s i dp out = lex_loop L s (i + 2) dp (out @ [t])"
        using i r sym a True sl by (simp add: unfold t_def)
      moreover have "x \<noteq> ''(''" "x \<noteq> '')''"
        using lx by auto
      then have "emits L dp [t] dp"
        by (auto simp: emits_def t_def)
      ultimately show ?thesis using i lt
        by (intro exI [of _ "i + 2"] exI [of _ dp] exI [of _ "[t]"]) simp
    next
      case False
      define t where "t = \<lparr>val = ToLower L (string_of_byte r), kind = tkSymbol, depth = dp\<rparr>"
      have "\<forall>out. lex_loop L s i dp out = lex_loop L s (i + 1) dp (out @ [t])"
        using i r sym a False by (simp add: unfold t_def)
      moreover have "string_of_byte r \<noteq> ''(''" "string_of_byte r \<noteq> '')''"
        using sym string_of_byte_single by blast+
      then have "emits L dp [t] dp"
        by (auto simp: emits_def t_def)
      ultimately show ?thesis using i
        by (intro exI [of _ "i + 1"] exI [of _ dp] exI [of _ "[t]"]) simp
    qed
  qed
qed

lemma lex_loop_lexed:
  "0 \<le> i \<Longrightarrow> \<exists>ts. lexed L dp ts \<and> (\<forall>out. lex_loop L s i dp out = Some (out @ ts))"
proof (induction "nat (len s - i)" arbitrary: i dp rule: less_induct)
  case less
  show ?case
  proof (cases "i < len s")
    case False
    then have "\<forall>out. lex_loop L s i dp out = Some (out @ [])"
      by (simp add: lex_loop.simps [of L s i dp])
    then show ?thesis using lexed_Nil by blast
  next
    case True
    from lex_loop_step [OF less(2) True, of L dp] obtain i' dp' ts where
      st: "i < i'" "i' \<le> len s" "emits L dp ts dp'"
        "\<forall>out. lex_loop L s i dp out = lex_loop L s i' dp' (out @ ts)"
      by blast
    from less(1) [of i' dp'] st(1) less(2) True obtain rest where
      rest: "lexed L dp' rest" "\<forall>out. lex_loop L s i' dp' out = Some (out @ rest)"
      by auto
    have "lexed L dp (ts @ rest)"
      using st(3) rest(1) by (rule lexed_step)
    moreover have "\<forall>out. lex_loop L s i dp out = Some (out @ ts @ rest)"
      using st(4) rest(2) by simp
    ultimately show ?thesis by blast
  qed
qed

lemma lex_lexed: "\<exists>toks. lex L s = Some toks \<and> lexed L 0 toks"
  using lex_loop_lexed [of 0 L 0 s] by (auto simp: lex_def)

lemma emits_nonneg:
  "emits L dp ts dp' \<Longrightarrow> 0 \<le> dp \<Longrightarrow> 0 \<le> dp' \<and> (\<forall>t\<in>set ts. 0 \<le> token.depth t)"
  by (auto simp: emits_def)

lemma lexed_nonneg: "lexed L dp ts \<Longrightarrow> 0 \<le> dp \<Longrightarrow> \<forall>t\<in>set ts. 0 \<le> token.depth t"
proof (induction rule: lexed.induct)
  case (lexed_Nil dp)
  then show ?case by simp
next
  case (lexed_step dp ts dp' rest)
  from emits_nonneg [OF lexed_step.hyps(1) lexed_step.prems] lexed_step.IH show ?case
    by auto
qed

lemma emits_depth_chain:
  assumes "paren_safe L" "emits L dp ts dp'" "depth_chain dp' rest"
  shows "depth_chain dp (ts @ rest)"
proof -
  have other: "\<not> is_lparen t \<and> \<not> is_rparen t"
    if "kind t \<noteq> tkSymbol \<or> (\<exists>x. val t = ToLower L x \<and> x \<noteq> ''('' \<and> x \<noteq> '')'')" for t
    using that assms(1) by (auto simp: is_lparen_def is_rparen_def paren_safe_def)
  from assms(2) consider "ts = []" "dp' = dp"
    | "ts = [\<lparr>val = ''('', kind = tkSymbol, depth = dp\<rparr>]" "dp' = dp + 1"
    | "ts = [\<lparr>val = '')'', kind = tkSymbol, depth = max 0 (dp - 1)\<rparr>]" "dp' = max 0 (dp - 1)"
    | t where "ts = [t]" "token.depth t = dp" "dp' = dp"
        "kind t \<noteq> tkSymbol \<or> (\<exists>x. val t = ToLower L x \<and> x \<noteq> ''('' \<and> x \<noteq> '')'')"
    unfolding emits_def by blast
  then show ?thesis
  proof cases
    case 1
    with assms(3) show ?thesis by simp
  next
    case 2
    with assms(3) show ?thesis by (simp add: is_lparen_def is_rparen_def)
  next
    case 3
    with assms(3) show ?thesis by (simp add: is_lparen_def is_rparen_def)
  next
    case 4
    with assms(3) other [OF 4(4)] show ?thesis by simp
  qed
qed

lemma lexed_depth_chain: "lexed L dp ts \<Longrightarrow> paren_safe L \<Longrightarrow> depth_chain dp ts"
proof (induction rule: lexed.induct)
  case (lexed_Nil dp)
  then show ?case by simp
next
  case (lexed_step dp ts dp' rest)
  then show ?case using emits_depth_chain by blast
qed

lemma lex_total: "\<exists>toks. lex L s = Some toks \<and> (\<forall>t\<in>set toks. 0 \<le> token.depth t)"
  using lex_lexed [of L s] lexed_nonneg [of L 0] by fastforce

lemma Validate_total: "\<exists>issues. Validate L sql = Some (issues = [], issues)"
proof -
  obtain src where "stripComments sql = Some src"
    using stripComments_total by blast
  moreover obtain toks where "lex L src = Some toks"
    using lex_total by blast
  moreover obtain issues where "validateTokens L toks = Some (issues = [], issues)"
    using validateTokens_total by blast
  ultimately show ?thesis by (simp add: Validate_def)
qed

section \<open>Auxiliary facts: unterminated literals and unmatched closers\<close>







section \<open>Auxiliary facts: the issue list\<close>

lemma validateSelects_concat:
  "validateSelects L toks selects acc = Some r \<Longrightarrow>
   \<exists>per. map (validateSelect L toks) selects = map Some per \<and> r = acc @ concat per"
proof (induction selects arbitrary: acc)
  case Nil
  then show ?case by simp
next
  case (Cons s selects)
  from Cons.prems obtain new where new: "validateSelect L toks s = Some new"
    and rest: "validateSelects L toks selects (acc @ new) = Some r"
    by (auto split: bind_splits)
  from Cons.IH [OF rest] obtain per where
    "map (validateSelect L toks) selects = map Some per" "r = (acc @ new) @ concat per"
    by blast
  with new have "map (validateSelect L toks) (s # selects) = map Some (new # per) \<and>
      r = acc @ concat (new # per)"
    by simp
  then show ?case by blast
qed

section \<open>Auxiliary facts: the depth discipline\<close>

lemma depth_chain_append:
  "depth_chain dp (pre @ rest) \<Longrightarrow> 0 \<le> dp \<Longrightarrow> \<exists>dp'. 0 \<le> dp' \<and> depth_chain dp' rest"
proof (induction pre arbitrary: dp)
  case Nil
  then show ?case by auto
next
  case (Cons t pre)
  show ?case
  proof (cases "is_rparen t")
    case True
    with Cons.prems have "depth_chain (token.depth t) (pre @ rest)" "0 \<le> token.depth t"
      by auto
    then show ?thesis by (rule Cons.IH)
  next
    case False
    with Cons.prems have "depth_chain (if is_lparen t then dp + 1 else dp) (pre @ rest)"
      "0 \<le> (if is_lparen t then dp + 1 else dp)"
      by simp_all
    then show ?thesis by (rule Cons.IH)
  qed
qed

lemma not_both_parens: "is_lparen t \<Longrightarrow> \<not> is_rparen t"
  by (simp add: is_lparen_def is_rparen_def)

lemma depth_chain_balanced:
  "depth_chain (d + 1 + int n) (body @ rest) \<Longrightarrow> balanced n body \<Longrightarrow> 0 \<le> d \<Longrightarrow>
   depth_chain (d + 1) rest \<and> (\<forall>t\<in>set (directly_inside n body). token.depth t = d + 1)"
proof (induction body arbitrary: n)
  case Nil
  then show ?case by simp
next
  case (Cons t ts)
  show ?case
  proof (cases "is_lparen t")
    case True
    then have nr: "\<not> is_rparen t" by (rule not_both_parens)
    from Cons.prems(1) True nr have t: "token.depth t = d + 1 + int n"
      and chain: "depth_chain (d + 1 + int (Suc n)) (ts @ rest)"
      by (simp_all add: add.assoc)
    from Cons.prems(2) True have "balanced (Suc n) ts" by simp
    from Cons.IH [OF chain this Cons.prems(3)] t True show ?thesis by auto
  next
    case nl: False
    show ?thesis
    proof (cases "is_rparen t")
      case True
      with Cons.prems(2) nl have n: "0 < n" and b: "balanced (n - 1) ts" by simp_all
      from n Cons.prems(3) have m: "max 0 (d + 1 + int n - 1) = d + 1 + int (n - 1)"
        by (simp add: max_def of_nat_diff)
      from Cons.prems(1) True m have t: "token.depth t = d + 1 + int (n - 1)"
        and chain: "depth_chain (d + 1 + int (n - 1)) (ts @ rest)"
        by auto
      from Cons.IH [OF chain b Cons.prems(3)] t True nl show ?thesis by auto
    next
      case False
      with Cons.prems(1) nl have t: "token.depth t = d + 1 + int n"
        and chain: "depth_chain (d + 1 + int n) (ts @ rest)"
        by simp_all
      from Cons.prems(2) nl False have "balanced n ts" by simp
      from Cons.IH [OF chain this Cons.prems(3)] t nl False show ?thesis by auto
    qed
  qed
qed

lemma depth_chain_group:
  assumes chain: "depth_chain dp (pre @ [lp] @ body @ [rp] @ post)" and dp: "0 \<le> dp"
    and lp: "is_lparen lp" and rp: "is_rparen rp" and body: "balanced 0 body"
  shows "token.depth rp = token.depth lp \<and>
    (\<forall>t\<in>set (directly_inside 0 body). token.depth t = token.depth lp + 1)"
proof -
  from depth_chain_append [OF chain dp] obtain d where
    d: "0 \<le> d" "depth_chain d (lp # body @ rp # post)"
    by auto
  from lp have "\<not> is_rparen lp" by (rule not_both_parens)
  with d(2) lp have l: "token.depth lp = d" and inner: "depth_chain (d + 1 + int 0) (body @ rp # post)"
    by simp_all
  from depth_chain_balanced [OF inner body d(1)] have
    b: "\<forall>t\<in>set (directly_inside 0 body). token.depth t = d + 1" and r: "depth_chain (d + 1) (rp # post)"
    by blast+
  from r rp d(1) have "token.depth rp = d" by auto
  with l b show ?thesis by simp
qed

lemma ascii_lower_fixes:
  assumes "ascii_lower c = d" and "(of_char d :: nat) < 97"
  shows "c = d"
proof (cases "65 \<le> (of_char c :: nat) \<and> (of_char c :: nat) \<le> 90")
  case False
  with assms(1) show ?thesis by (auto simp: ascii_lower_def Let_def)
next
  case True
  with assms(1) have "char_of (of_char c + 32 :: nat) = d"
    by (simp add: ascii_lower_def Let_def)
  then have "(of_char d :: nat) = (of_char c + 32) mod 256"
    by (metis of_char_of)
  with True assms(2) show ?thesis by simp
qed

lemma ascii_lower_paren: "ascii_lower c = CHR ''('' \<Longrightarrow> c = CHR ''(''"
  "ascii_lower c = CHR '')'' \<Longrightarrow> c = CHR '')''"
  by (erule ascii_lower_fixes, simp)+

lemma paren_safe_ascii: "paren_safe ascii_strings"
  using ascii_lower_paren by (auto simp: paren_safe_def ascii_strings_def)

section \<open>Auxiliary facts: the time scan\<close>

lemma isTimeIdentifierAt_eq:
  "isTimeIdentifierAt toks i =
     Some (0 \<le> i \<and> i < len toks \<and> kind (toks ! nat i) = tkIdent \<and> val (toks ! nat i) = ''time'')"
  by (auto simp: isTimeIdentifierAt_def)

lemma no_time_at:
  "\<forall>t\<in>set toks. \<not> (kind t = tkIdent \<and> val t = ''time'') \<Longrightarrow> isTimeIdentifierAt toks i = Some False"
  by (auto simp: isTimeIdentifierAt_eq)

lemma timeLookback_no_time:
  assumes no: "\<forall>t\<in>set toks. \<not> (kind t = tkIdent \<and> val t = ''time'')"
  shows "0 \<le> start \<Longrightarrow> k < len toks \<Longrightarrow> timeLookback toks start i dp k = Some False"
proof (induction "nat (k - (i - 7))" arbitrary: k rule: less_induct)
  case less
  show ?case
  proof (cases "k \<ge> start \<and> k \<ge> i - 6")
    case False
    then show ?thesis
      by (subst timeLookback.simps [of toks start i dp k]) auto
  next
    case True
    have "timeLookback toks start i dp (k - 1) = Some False"
      using less(1) [of "k - 1"] less(2,3) True by simp
    then show ?thesis
      by (subst timeLookback.simps [of toks start i dp k])
         (use True less(2,3) in \<open>simp add: andalso_def no_time_at [OF no]\<close>)
  qed
qed

lemma whereHasTimePredicate_loop_no_time:
  assumes no: "\<forall>t\<in>set toks. \<not> (kind t = tkIdent \<and> val t = ''time'')"
  shows "0 \<le> start \<Longrightarrow> start \<le> i \<Longrightarrow> whereHasTimePredicate_loop toks start stop i = Some False"
proof (induction "nat (len toks - i)" arbitrary: i rule: less_induct)
  case less
  show ?case
  proof (cases "i < stop \<and> i < len toks")
    case False
    then show ?thesis
      by (subst whereHasTimePredicate_loop.simps [of toks start stop i]) auto
  next
    case True
    have "whereHasTimePredicate_loop toks start stop (i + 1) = Some False"
      using less(1) [of "i + 1"] less(2,3) True by simp
    moreover have "timeLookback toks start i (token.depth (toks ! nat i)) (i - 1) = Some False"
      using timeLookback_no_time [OF no less(2), of "i - 1" i] True by simp
    ultimately show ?thesis
      by (subst whereHasTimePredicate_loop.simps [of toks start stop i])
         (use True less(2,3) in \<open>simp add: andalso_def no_time_at [OF no]\<close>)
  qed
qed

lemma timeLookback_finds:
  assumes start: "0 \<le> start" and k: "start \<le> k" "i - 6 \<le> k"
    and time: "kind (toks ! nat k) = tkIdent" "val (toks ! nat k) = ''time''"
      "token.depth (toks ! nat k) = dp"
  shows "k \<le> k0 \<Longrightarrow> k0 < len toks \<Longrightarrow> timeLookback toks start i dp k0 = Some True"
proof (induction "nat (k0 - k)" arbitrary: k0 rule: less_induct)
  case less
  have in_window: "k0 \<ge> start \<and> k0 \<ge> i - 6"
    using k less(2) by simp
  have k0: "0 \<le> k0" "k0 < len toks"
    using start k less(2,3) by simp_all
  show ?case
  proof (cases "k0 = k")
    case True
    with time start k less(3) show ?thesis
      by (subst timeLookback.simps [of toks start i dp k0])
         (simp add: andalso_def isTimeIdentifierAt_eq)
  next
    case False
    then have "timeLookback toks start i dp (k0 - 1) = Some True"
      using less(1) [of "k0 - 1"] less(2,3) by simp
    then show ?thesis
      by (subst timeLookback.simps [of toks start i dp k0])
         (use in_window k0 in \<open>simp add: andalso_def isTimeIdentifierAt_eq\<close>)
  qed
qed

lemma whereHasTimePredicate_loop_between:
  assumes start: "0 \<le> start" and i: "i < stop" "i < len toks"
    and between: "kind (toks ! nat i) = tkKeyword" "val (toks ! nat i) = ''between''"
    and k: "start \<le> k" "i - 6 \<le> k" "k < i"
    and time: "kind (toks ! nat k) = tkIdent" "val (toks ! nat k) = ''time''"
      "token.depth (toks ! nat k) = token.depth (toks ! nat i)"
  shows "start \<le> j \<Longrightarrow> j \<le> i \<Longrightarrow> whereHasTimePredicate_loop toks start stop j = Some True"
proof (induction "nat (i - j)" arbitrary: j rule: less_induct)
  case less
  have j: "0 \<le> j" "j < stop" "j < len toks"
    using start i less(2,3) by simp_all
  obtain f where f: "timeOperatorFollows toks stop j = Some f"
    using timeOperatorFollows_total [OF j(1,3)] by blast
  obtain l where l: "timeLookback toks start j (token.depth (toks ! nat j)) (j - 1) = Some l"
    using timeLookback_total [OF start, of "j - 1" toks j] j by auto
  show ?case
  proof (cases "j = i")
    case True
    have "timeLookback toks start i (token.depth (toks ! nat i)) (i - 1) = Some True"
      using timeLookback_finds [OF start k(1,2) time, of "i - 1"] k(3) i by simp
    with True between f j show ?thesis
      by (subst whereHasTimePredicate_loop.simps [of toks start stop j])
         (simp add: andalso_def isTimeIdentifierAt_eq)
  next
    case False
    then have "whereHasTimePredicate_loop toks start stop (j + 1) = Some True"
      using less(1) [of "j + 1"] less(2,3) by simp
    with f l j show ?thesis
      by (subst whereHasTimePredicate_loop.simps [of toks start stop j])
         (simp add: andalso_def isTimeIdentifierAt_eq)
  qed
qed

section \<open>Auxiliary facts: the search for FROM\<close>

lemma fromVisibleAfter_step:
  assumes "\<not> fromVisibleAfter toks i dp" "dp \<le> token.depth (toks ! nat i)"
  shows "\<not> fromVisibleAfter toks (i + 1) dp"
proof
  assume "fromVisibleAfter toks (i + 1) dp"
  then obtain j where j: "i + 1 \<le> j" "j < len toks"
    "kind (toks ! nat j) = tkKeyword" "val (toks ! nat j) = ''from''"
    "token.depth (toks ! nat j) = dp"
    "\<forall>k. i + 1 \<le> k \<and> k < j \<longrightarrow> dp \<le> token.depth (toks ! nat k)"
    unfolding fromVisibleAfter_def by blast
  have "\<forall>k. i \<le> k \<and> k < j \<longrightarrow> dp \<le> token.depth (toks ! nat k)"
  proof (intro allI impI)
    fix k assume "i \<le> k \<and> k < j"
    then consider "k = i" | "i + 1 \<le> k \<and> k < j" by linarith
    then show "dp \<le> token.depth (toks ! nat k)"
      using assms(2) j(6) by cases auto
  qed
  with j have "fromVisibleAfter toks i dp"
    unfolding fromVisibleAfter_def by (intro exI [of _ j]) simp
  with assms(1) show False by simp
qed

lemma findNextKeywordAtDepth_no_from:
  "0 \<le> i \<Longrightarrow> \<not> fromVisibleAfter toks i dp \<Longrightarrow>
   findNextKeywordAtDepth toks i dp ''from'' = Some (- 1)"
proof (induction "nat (len toks - i)" arbitrary: i rule: less_induct)
  case less
  show ?case
  proof (cases "i < len toks")
    case False
    then show ?thesis
      by (subst findNextKeywordAtDepth.simps [of toks i dp "''from''"]) simp
  next
    case True
    have step: "findNextKeywordAtDepth toks (i + 1) dp ''from'' = Some (- 1)"
      if "dp \<le> token.depth (toks ! nat i)"
      using less(1) [of "i + 1"] less(2) True fromVisibleAfter_step [OF less(3) that] by simp
    have here: "\<not> (token.depth (toks ! nat i) = dp \<and> kind (toks ! nat i) = tkKeyword \<and>
        val (toks ! nat i) = ''from'')"
    proof
      assume "token.depth (toks ! nat i) = dp \<and> kind (toks ! nat i) = tkKeyword \<and>
        val (toks ! nat i) = ''from''"
      with True less(2) have "fromVisibleAfter toks i dp"
        unfolding fromVisibleAfter_def by (intro exI [of _ i]) simp
      with less(3) show False by simp
    qed
    show ?thesis
      by (subst findNextKeywordAtDepth.simps [of toks i dp "''from''"])
         (use True less(2) here step in \<open>auto\<close>)
  qed
qed


section \<open>Auxiliary facts: comments\<close>











section \<open>Auxiliary facts: the measure-name scan\<close>

lemma regexpLikeAt_eq:
  "0 \<le> i \<Longrightarrow> i < len toks \<Longrightarrow>
   andalso (kind (toks ! nat i) = tkIdent \<and> val (toks ! nat i) = ''regexp_like'' \<and>
            i + 5 < stop \<and> i + 5 < len toks) (regexpLikeAt toks i) =
     Some (regexpShapeAt toks stop i)"
  by (auto simp: andalso_def regexpLikeAt_def regexpShapeAt_def tokenIs_def)

lemma measureEqualsAt_eq:
  "0 \<le> i \<Longrightarrow> i < len toks \<Longrightarrow> tokenIs toks i tkIdent ''measure_name'' \<Longrightarrow>
   andalso (i + 2 < stop \<and> i + 2 < len toks) (measureEqualsAt toks i) =
     Some (equalsShapeAt toks stop i)"
  by (auto simp: andalso_def measureEqualsAt_def equalsShapeAt_def tokenIs_def)

lemma tokenIs_unique: "tokenIs toks i k v \<Longrightarrow> tokenIs toks i k' v' \<Longrightarrow> k' = k \<and> v' = v"
  by (simp add: tokenIs_def)

lemma stray_after_regexp:
  assumes r: "regexpShapeAt toks stop i"
  shows "(\<exists>k. strayMeasureName toks i stop k) = (\<exists>k. strayMeasureName toks (i + 6) stop k)"
proof
  assume "\<exists>k. strayMeasureName toks i stop k"
  then obtain k where k: "strayMeasureName toks i stop k" ..
  then have ik: "i \<le> k" by (simp add: strayMeasureName_def)
  have "i + 6 \<le> k"
  proof (rule ccontr)
    assume "\<not> i + 6 \<le> k"
    with ik consider "k = i" | "k = i + 1" | "k = i + 2" | "k = i + 3" | "k = i + 4" | "k = i + 5"
      by linarith
    then show False
      using k r by cases (auto simp: strayMeasureName_def regexpShapeAt_def tokenIs_def add.commute)
  qed
  with k have "strayMeasureName toks (i + 6) stop k"
    by (auto simp: strayMeasureName_def)
  then show "\<exists>k. strayMeasureName toks (i + 6) stop k" ..
next
  assume "\<exists>k. strayMeasureName toks (i + 6) stop k"
  then obtain k where k: "strayMeasureName toks (i + 6) stop k" ..
  have "\<not> (i \<le> k - 2 \<and> regexpShapeAt toks stop (k - 2))"
  proof
    assume a: "i \<le> k - 2 \<and> regexpShapeAt toks stop (k - 2)"
    with k have "\<not> i + 6 \<le> k - 2" "i + 6 \<le> k"
      by (auto simp: strayMeasureName_def)
    then consider "k = i + 6" | "k = i + 7" by linarith
    then show False
      using a r by cases (auto simp: regexpShapeAt_def tokenIs_def add.commute)
  qed
  with k have "strayMeasureName toks i stop k"
    by (auto simp: strayMeasureName_def)
  then show "\<exists>k. strayMeasureName toks i stop k" ..
qed

lemma stray_after_equals:
  assumes e: "equalsShapeAt toks stop i"
  shows "(\<exists>k. strayMeasureName toks i stop k) = (\<exists>k. strayMeasureName toks (i + 3) stop k)"
proof
  assume "\<exists>k. strayMeasureName toks i stop k"
  then obtain k where k: "strayMeasureName toks i stop k" ..
  then have ik: "i \<le> k" by (simp add: strayMeasureName_def)
  have "i + 3 \<le> k"
  proof (rule ccontr)
    assume "\<not> i + 3 \<le> k"
    with ik consider "k = i" | "k = i + 1" | "k = i + 2"
      by linarith
    then show False
      using k e by cases (auto simp: strayMeasureName_def equalsShapeAt_def tokenIs_def add.commute)
  qed
  with k have "strayMeasureName toks (i + 3) stop k"
    by (auto simp: strayMeasureName_def)
  then show "\<exists>k. strayMeasureName toks (i + 3) stop k" ..
next
  assume "\<exists>k. strayMeasureName toks (i + 3) stop k"
  then obtain k where k: "strayMeasureName toks (i + 3) stop k" ..
  have "\<not> (i \<le> k - 2 \<and> regexpShapeAt toks stop (k - 2))"
  proof
    assume a: "i \<le> k - 2 \<and> regexpShapeAt toks stop (k - 2)"
    with k have "\<not> i + 3 \<le> k - 2" "i + 3 \<le> k"
      by (auto simp: strayMeasureName_def)
    then consider "k = i + 3" | "k = i + 4" by linarith
    then show False
      using a e by cases (auto simp: regexpShapeAt_def equalsShapeAt_def tokenIs_def add.commute)
  qed
  with k have "strayMeasureName toks i stop k"
    by (auto simp: strayMeasureName_def)
  then show "\<exists>k. strayMeasureName toks i stop k" ..
qed

lemma stray_after_other:
  assumes r: "\<not> regexpShapeAt toks stop i" and m: "\<not> tokenIs toks i tkIdent ''measure_name''"
  shows "(\<exists>k. strayMeasureName toks i stop k) = (\<exists>k. strayMeasureName toks (i + 1) stop k)"
proof
  assume "\<exists>k. strayMeasureName toks i stop k"
  then obtain k where k: "strayMeasureName toks i stop k" ..
  with m have "k \<noteq> i" by (auto simp: strayMeasureName_def)
  with k have "strayMeasureName toks (i + 1) stop k"
    by (auto simp: strayMeasureName_def)
  then show "\<exists>k. strayMeasureName toks (i + 1) stop k" ..
next
  assume "\<exists>k. strayMeasureName toks (i + 1) stop k"
  then obtain k where k: "strayMeasureName toks (i + 1) stop k" ..
  have "\<not> (i \<le> k - 2 \<and> regexpShapeAt toks stop (k - 2))"
  proof
    assume a: "i \<le> k - 2 \<and> regexpShapeAt toks stop (k - 2)"
    with k have "k - 2 = i"
      by (auto simp: strayMeasureName_def)
    with a r show False by simp
  qed
  with k have "strayMeasureName toks i stop k"
    by (auto simp: strayMeasureName_def)
  then show "\<exists>k. strayMeasureName toks i stop k" ..
qed

lemma valid_after_other:
  assumes r: "\<not> regexpShapeAt toks stop i" and m: "\<not> tokenIs toks i tkIdent ''measure_name''"
  shows "(\<exists>j. validOccurrence toks i stop j) = (\<exists>j. validOccurrence toks (i + 1) stop j)"
proof
  assume "\<exists>j. validOccurrence toks i stop j"
  then obtain j where j: "validOccurrence toks i stop j" ..
  with r m have "j \<noteq> i" by (auto simp: validOccurrence_def equalsShapeAt_def)
  with j have "validOccurrence toks (i + 1) stop j"
    by (auto simp: validOccurrence_def)
  then show "\<exists>j. validOccurrence toks (i + 1) stop j" ..
next
  assume "\<exists>j. validOccurrence toks (i + 1) stop j"
  then obtain j where "validOccurrence toks (i + 1) stop j" ..
  then have "validOccurrence toks i stop j"
    by (auto simp: validOccurrence_def)
  then show "\<exists>j. validOccurrence toks i stop j" ..
qed

lemma whereHasMeasureNamePredicate_loop_eq:
  "0 \<le> i \<Longrightarrow>
   whereHasMeasureNamePredicate_loop toks stop i foundValid foundInvalid =
     Some ((foundValid \<or> (\<exists>j. validOccurrence toks i stop j)) \<and>
           \<not> (foundInvalid \<or> (\<exists>k. strayMeasureName toks i stop k)))"
proof (induction "nat (len toks - i)" arbitrary: i foundValid foundInvalid rule: less_induct)
  case less
  note unfold = whereHasMeasureNamePredicate_loop.simps [of toks stop i foundValid foundInvalid]
  show ?case
  proof (cases "i < stop \<and> i < len toks")
    case False
    then have "\<not> (\<exists>j. validOccurrence toks i stop j)" "\<not> (\<exists>k. strayMeasureName toks i stop k)"
      by (auto simp: validOccurrence_def equalsShapeAt_def regexpShapeAt_def strayMeasureName_def)
    with False show ?thesis
      by (subst unfold) auto
  next
    case True
    have step: "whereHasMeasureNamePredicate_loop toks stop j v w =
        Some ((v \<or> (\<exists>j'. validOccurrence toks j stop j')) \<and>
              \<not> (w \<or> (\<exists>k. strayMeasureName toks j stop k)))"
      if "i < j" for j v w
      using less(1) [of j v w] less(2) True that by simp
    have p1: "andalso (kind (toks ! nat i) = tkIdent \<and> val (toks ! nat i) = ''regexp_like'' \<and>
            i + 5 < stop \<and> i + 5 < len toks) (regexpLikeAt toks i) =
        Some (regexpShapeAt toks stop i)"
      using regexpLikeAt_eq [of i toks stop] less(2) True by simp
    show ?thesis
    proof (cases "regexpShapeAt toks stop i")
      case r: True
      then have "validOccurrence toks i stop i"
        by (simp add: validOccurrence_def)
      then have v: "\<exists>j. validOccurrence toks i stop j" ..
      have "whereHasMeasureNamePredicate_loop toks stop i foundValid foundInvalid =
          whereHasMeasureNamePredicate_loop toks stop (i + 6) True foundInvalid"
        by (subst unfold) (use True less(2) p1 r in simp)
      with v show ?thesis
        by (simp add: step stray_after_regexp [OF r])
    next
      case nr: False
      show ?thesis
      proof (cases "tokenIs toks i tkIdent ''measure_name''")
        case m: True
        have p2: "andalso (i + 2 < stop \<and> i + 2 < len toks) (measureEqualsAt toks i) =
            Some (equalsShapeAt toks stop i)"
          using measureEqualsAt_eq [of i toks stop] less(2) True m by simp
        from m have m': "kind (toks ! nat i) = tkIdent \<and> val (toks ! nat i) = ''measure_name''"
          by (simp add: tokenIs_def)
        show ?thesis
        proof (cases "equalsShapeAt toks stop i")
          case e: True
          then have "validOccurrence toks i stop i"
            by (simp add: validOccurrence_def)
          then have v: "\<exists>j. validOccurrence toks i stop j" ..
          have "whereHasMeasureNamePredicate_loop toks stop i foundValid foundInvalid =
              whereHasMeasureNamePredicate_loop toks stop (i + 3) True foundInvalid"
            by (subst unfold) (use True less(2) p1 nr m' p2 e in simp)
          with v show ?thesis
            by (simp add: step stray_after_equals [OF e])
        next
          case ne: False
          with m nr True have "strayMeasureName toks i stop i"
            by (simp add: strayMeasureName_def)
          then have st: "\<exists>k. strayMeasureName toks i stop k" ..
          have "whereHasMeasureNamePredicate_loop toks stop i foundValid foundInvalid =
              whereHasMeasureNamePredicate_loop toks stop (i + 1) foundValid True"
            by (subst unfold) (use True less(2) p1 nr m' p2 ne in simp)
          with st show ?thesis
            by (simp add: step)
        qed
      next
        case nm: False
        then have nm': "\<not> (kind (toks ! nat i) = tkIdent \<and> val (toks ! nat i) = ''measure_name'')"
          by (simp add: tokenIs_def)
        have "whereHasMeasureNamePredicate_loop toks stop i foundValid foundInvalid =
            whereHasMeasureNamePredicate_loop toks stop (i + 1) foundValid foundInvalid"
          by (subst unfold) (use True less(2) p1 nr nm' in auto)
        then show ?thesis
          by (simp add: step stray_after_other [OF nr nm] valid_after_other [OF nr nm])
      qed
    qed
  qed
qed

section \<open>The branches of a WHERE clause\<close>



section \<open>The measure-name predicate\<close>

text \<open>
  Claim C2. For every branch \<open>[start, stop)\<close> the measure-name check succeeds exactly when
  the branch contains a valid occurrence, the six tokens
  \<open>regexp_like ( measure_name , 'literal' )\<close> or the three tokens \<open>measure_name = 'literal'\<close>,
  and no identifier \<open>measure_name\<close> outside these shapes. In
  \<^verbatim>\<open>SELECT * FROM mydb.sensors WHERE time > 10 AND measure_name = 'foo' AND measure_name != 'bar'\<close>
  the branch is the tokens 5 to 15: the check fails on it, although it succeeds on the
  tokens 5 to 11 that end before the second \<open>measure_name\<close>, and \<^verbatim>\<open>Validate\<close> rejects the
  query for its measure-name predicate alone.
\<close>

theorem measure_name_check_characterised:
  "(0 \<le> start \<longrightarrow> 0 \<le> stop \<longrightarrow>
      whereHasMeasureNamePredicate toks start stop =
        Some ((\<exists>i. validOccurrence toks start stop i) \<and> \<not> (\<exists>k. strayMeasureName toks start stop k))) \<and>
   (lex ascii_strings query_mixed_measure_name \<bind> (\<lambda>toks. whereHasMeasureNamePredicate toks 5 16)) =
     Some False \<and>
   (lex ascii_strings query_mixed_measure_name \<bind> (\<lambda>toks. whereHasMeasureNamePredicate toks 5 12)) =
     Some True \<and>
   map_option (\<lambda>(ok, issues). (ok, map Reason issues)) (Validate ascii_strings query_mixed_measure_name) =
     Some (False, [''WHERE clause lacks a valid measure_name predicate (requires = '' @ [CHR 0x27] @
       ''...'' @ [CHR 0x27] @ '' or regexp_like)''])"
proof (intro conjI impI)
  assume "0 \<le> start" "0 \<le> stop"
  then show "whereHasMeasureNamePredicate toks start stop =
      Some ((\<exists>i. validOccurrence toks start stop i) \<and> \<not> (\<exists>k. strayMeasureName toks start stop k))"
    by (simp add: whereHasMeasureNamePredicate_def Let_def whereHasMeasureNamePredicate_loop_eq)
next
  show "(lex ascii_strings query_mixed_measure_name \<bind> (\<lambda>toks. whereHasMeasureNamePredicate toks 5 16)) =
      Some False"
    by code_simp
  show "(lex ascii_strings query_mixed_measure_name \<bind> (\<lambda>toks. whereHasMeasureNamePredicate toks 5 12)) =
      Some True"
    by code_simp
  show "map_option (\<lambda>(ok, issues). (ok, map Reason issues)) (Validate ascii_strings query_mixed_measure_name) =
     Some (False, [''WHERE clause lacks a valid measure_name predicate (requires = '' @ [CHR 0x27] @
       ''...'' @ [CHR 0x27] @ '' or regexp_like)''])"
    by code_simp
qed

theorem measure_name_check_characterised_witness:
  "whereHasMeasureNamePredicate
     [\<lparr>val = ''measure_name'', kind = tkIdent, depth = 0\<rparr>, \<lparr>val = ''='', kind = tkSymbol, depth = 0\<rparr>,
      \<lparr>val = [CHR 0x27, CHR ''a'', CHR 0x27], kind = tkString, depth = 0\<rparr>] 0 3 = Some True"
proof -
  let ?toks = "[\<lparr>val = ''measure_name'', kind = tkIdent, depth = 0\<rparr>,
      \<lparr>val = ''='', kind = tkSymbol, depth = 0\<rparr>,
      \<lparr>val = [CHR 0x27, CHR ''a'', CHR 0x27], kind = tkString, depth = 0\<rparr>]"
  have e: "equalsShapeAt ?toks 3 0"
    by (simp add: equalsShapeAt_def tokenIs_def)
  then have "validOccurrence ?toks 0 3 0"
    by (simp add: validOccurrence_def)
  then have v: "\<exists>i. validOccurrence ?toks 0 3 i" ..
  have "\<not> strayMeasureName ?toks 0 3 k" for k
  proof
    assume k: "strayMeasureName ?toks 0 3 k"
    then have "0 \<le> k" "k < 3" by (simp_all add: strayMeasureName_def)
    then consider "k = 0" | "k = 1" | "k = 2" by linarith
    then show False
      using k e by cases (simp_all add: strayMeasureName_def tokenIs_def)
  qed
  with v show ?thesis
    using measure_name_check_characterised [of 0 3 ?toks] by simp
qed

section \<open>The time predicate\<close>

text \<open>
  Claim C3. Only an identifier token whose value is exactly \<open>time\<close> can satisfy the time
  check: on a token sequence without such a token, \<^verbatim>\<open>whereHasTimePredicate\<close> returns \<open>false\<close>
  for every branch (every range that starts at a valid index, as the branches of
  \<^verbatim>\<open>Validate\<close> do). So the column \<open>measure_time\<close> does not count: the query
  \<^verbatim>\<open>SELECT * FROM mydb.s1 WHERE measure_time > ago(1h) AND measure_name = 'x'\<close> is
  rejected for its missing time predicate.
\<close>

theorem time_predicate_needs_time_identifier:
  "((\<forall>t\<in>set toks. \<not> (kind t = tkIdent \<and> val t = ''time'')) \<longrightarrow> 0 \<le> start \<longrightarrow>
      whereHasTimePredicate toks start stop = Some False) \<and>
   map_option (\<lambda>(ok, issues). (ok, map Reason issues)) (Validate ascii_strings query_measure_time) =
     Some (False, [''WHERE clause lacks a time predicate''])"
proof (intro conjI impI)
  assume "\<forall>t\<in>set toks. \<not> (kind t = tkIdent \<and> val t = ''time'')" "0 \<le> start"
  then show "whereHasTimePredicate toks start stop = Some False"
    using whereHasTimePredicate_loop_no_time [of toks start start]
    by (simp add: whereHasTimePredicate_def Let_def)
next
  show "map_option (\<lambda>(ok, issues). (ok, map Reason issues)) (Validate ascii_strings query_measure_time) =
     Some (False, [''WHERE clause lacks a time predicate''])"
    by code_simp
qed

theorem time_predicate_needs_time_identifier_witness:
  "whereHasTimePredicate
     [\<lparr>val = ''measure_time'', kind = tkIdent, depth = 0\<rparr>, \<lparr>val = ''>'', kind = tkSymbol, depth = 0\<rparr>,
      \<lparr>val = ''1'', kind = tkNumber, depth = 0\<rparr>] 0 3 = Some False"
  using time_predicate_needs_time_identifier
    [of "[\<lparr>val = ''measure_time'', kind = tkIdent, depth = 0\<rparr>,
          \<lparr>val = ''>'', kind = tkSymbol, depth = 0\<rparr>, \<lparr>val = ''1'', kind = tkNumber, depth = 0\<rparr>]" 0 3]
  by simp

section \<open>The depth of parentheses\<close>

text \<open>
  Claim C4, as the code has it. In the token sequence of \<^verbatim>\<open>lex\<close>, read from the left with
  the depth zero in effect, every \<open>(\<close> is recorded at the depth in effect before the
  increment and every \<open>)\<close> at the depth after the decrement, which stops at zero
  (\<open>depth_chain\<close>). The two delimiters of a group therefore carry the depth of the context
  that encloses the group, and the tokens directly inside the group, the delimiters of
  nested groups among them, are one level deeper than its delimiters. The lexer relies
  on \<^verbatim>\<open>strings.ToLower\<close> never turning another text into a parenthesis.
\<close>

theorem lex_delimiters_carry_outer_depth:
  assumes "paren_safe L"
  shows "\<exists>toks. lex L s = Some toks \<and> depth_chain 0 toks \<and>
     (\<forall>pre lp body rp post.
        toks = pre @ [lp] @ body @ [rp] @ post \<longrightarrow> is_lparen lp \<longrightarrow> is_rparen rp \<longrightarrow>
        balanced 0 body \<longrightarrow>
        token.depth rp = token.depth lp \<and>
        (\<forall>t\<in>set (directly_inside 0 body). token.depth t = token.depth lp + 1))"
proof -
  obtain toks where toks: "lex L s = Some toks" "lexed L 0 toks"
    using lex_lexed by blast
  from lexed_depth_chain [OF toks(2) assms] have chain: "depth_chain 0 toks" .
  have "token.depth rp = token.depth lp \<and>
      (\<forall>t\<in>set (directly_inside 0 body). token.depth t = token.depth lp + 1)"
    if "toks = pre @ [lp] @ body @ [rp] @ post" "is_lparen lp" "is_rparen rp" "balanced 0 body"
    for pre lp body rp post
    using depth_chain_group [of 0 pre lp body rp post] chain that by simp
  with toks(1) chain show ?thesis by blast
qed

theorem lex_delimiters_carry_outer_depth_witness:
  "paren_safe ascii_strings \<and>
   map_option (map token.depth) (lex ascii_strings query_nested_groups) = Some [0, 1, 1, 2, 1, 1, 0] \<and>
   depth_chain 0
     [\<lparr>val = ''('', kind = tkSymbol, depth = 0\<rparr>, \<lparr>val = ''a'', kind = tkIdent, depth = 1\<rparr>,
      \<lparr>val = ''('', kind = tkSymbol, depth = 1\<rparr>, \<lparr>val = ''b'', kind = tkIdent, depth = 2\<rparr>,
      \<lparr>val = '')'', kind = tkSymbol, depth = 1\<rparr>, \<lparr>val = ''c'', kind = tkIdent, depth = 1\<rparr>,
      \<lparr>val = '')'', kind = tkSymbol, depth = 0\<rparr>]"
proof -
  let ?l0 = "\<lparr>val = ''('', kind = tkSymbol, depth = 0\<rparr>"
  let ?a = "\<lparr>val = ''a'', kind = tkIdent, depth = 1\<rparr>"
  let ?l1 = "\<lparr>val = ''('', kind = tkSymbol, depth = 1\<rparr>"
  let ?b = "\<lparr>val = ''b'', kind = tkIdent, depth = 2\<rparr>"
  let ?r1 = "\<lparr>val = '')'', kind = tkSymbol, depth = 1\<rparr>"
  let ?c = "\<lparr>val = ''c'', kind = tkIdent, depth = 1\<rparr>"
  let ?r0 = "\<lparr>val = '')'', kind = tkSymbol, depth = 0\<rparr>"
  have l: "lex ascii_strings query_nested_groups = Some [?l0, ?a, ?l1, ?b, ?r1, ?c, ?r0]"
    by code_simp
  from lex_delimiters_carry_outer_depth [OF paren_safe_ascii, of query_nested_groups] obtain toks where
    toks: "lex ascii_strings query_nested_groups = Some toks" and chain: "depth_chain 0 toks"
    and grp: "\<forall>pre lp body rp post.
        toks = pre @ [lp] @ body @ [rp] @ post \<longrightarrow> is_lparen lp \<longrightarrow> is_rparen rp \<longrightarrow>
        balanced 0 body \<longrightarrow>
        token.depth rp = token.depth lp \<and>
        (\<forall>t\<in>set (directly_inside 0 body). token.depth t = token.depth lp + 1)"
    by blast
  from toks l have eq: "toks = [?l0, ?a, ?l1, ?b, ?r1, ?c, ?r0]" by simp
  have "toks = [] @ [?l0] @ [?a, ?l1, ?b, ?r1, ?c] @ [?r0] @ []" "is_lparen ?l0" "is_rparen ?r0"
    "balanced 0 [?a, ?l1, ?b, ?r1, ?c]"
    by (simp_all add: eq is_lparen_def is_rparen_def)
  with grp have "token.depth ?r0 = token.depth ?l0 \<and>
      (\<forall>t\<in>set (directly_inside 0 [?a, ?l1, ?b, ?r1, ?c]). token.depth t = token.depth ?l0 + 1)"
    by blast
  with chain eq l paren_safe_ascii show ?thesis by simp
qed

text \<open>
  Claim C4 as the specification states it, with the delimiters at the depth of the tokens
  of the group, fails on \<^verbatim>\<open>(a)\<close>: both delimiters are at depth 0 and \<open>a\<close> is at depth 1.
\<close>

theorem lex_delimiters_not_at_content_depth:
  "lex ascii_strings ''(a)'' =
     Some [\<lparr>val = ''('', kind = tkSymbol, depth = 0\<rparr>, \<lparr>val = ''a'', kind = tkIdent, depth = 1\<rparr>,
           \<lparr>val = '')'', kind = tkSymbol, depth = 0\<rparr>]"
  by code_simp

text \<open>
  Claim C5. When the scan of a branch meets a \<open>between\<close> keyword at index \<open>i\<close>, it also
  looks back over the at most six tokens \<open>i - 1, \<dots>, i - 6\<close> of the branch, stepping over
  \<open>not\<close> keywords, and the check succeeds if one of them is a \<open>time\<close> identifier at the
  depth of the \<open>between\<close>. So a branch with such a pair always has its time predicate.
  The window is six tokens wide and counts every token: \<open>time\<close> six tokens before
  \<open>BETWEEN\<close> is found, seven tokens before it is not; and it compares depths:
  \<open>(time) BETWEEN\<close> is not accepted.
\<close>

theorem between_looks_back_for_time:
  "(0 \<le> start \<longrightarrow> start \<le> k \<longrightarrow> i - 6 \<le> k \<longrightarrow> k < i \<longrightarrow> i < len toks \<longrightarrow> (stop < 0 \<or> i < stop) \<longrightarrow>
      kind (toks ! nat i) = tkKeyword \<longrightarrow> val (toks ! nat i) = ''between'' \<longrightarrow>
      kind (toks ! nat k) = tkIdent \<longrightarrow> val (toks ! nat k) = ''time'' \<longrightarrow>
      token.depth (toks ! nat k) = token.depth (toks ! nat i) \<longrightarrow>
      whereHasTimePredicate toks start stop = Some True) \<and>
   (lex ascii_strings ''time a b c d e BETWEEN'' \<bind> (\<lambda>toks. whereHasTimePredicate toks 0 (len toks))) =
     Some True \<and>
   (lex ascii_strings ''time a b c d e f BETWEEN'' \<bind> (\<lambda>toks. whereHasTimePredicate toks 0 (len toks))) =
     Some False \<and>
   (lex ascii_strings ''time x NOT BETWEEN'' \<bind> (\<lambda>toks. whereHasTimePredicate toks 0 (len toks))) =
     Some True \<and>
   (lex ascii_strings ''time (x) BETWEEN'' \<bind> (\<lambda>toks. whereHasTimePredicate toks 0 (len toks))) =
     Some True \<and>
   (lex ascii_strings ''(time) BETWEEN'' \<bind> (\<lambda>toks. whereHasTimePredicate toks 0 (len toks))) =
     Some False"
proof (intro conjI impI)
  assume "0 \<le> start" "start \<le> k" "i - 6 \<le> k" "k < i" "i < len toks" "stop < 0 \<or> i < stop"
    "kind (toks ! nat i) = tkKeyword" "val (toks ! nat i) = ''between''"
    "kind (toks ! nat k) = tkIdent" "val (toks ! nat k) = ''time''"
    "token.depth (toks ! nat k) = token.depth (toks ! nat i)"
  then show "whereHasTimePredicate toks start stop = Some True"
    using whereHasTimePredicate_loop_between
      [of start i "if stop < 0 then len toks else stop" toks k start]
    by (auto simp: whereHasTimePredicate_def Let_def split: if_splits)
next
  show "(lex ascii_strings ''time a b c d e BETWEEN'' \<bind> (\<lambda>toks. whereHasTimePredicate toks 0 (len toks))) =
     Some True"
    by code_simp
  show "(lex ascii_strings ''time a b c d e f BETWEEN'' \<bind> (\<lambda>toks. whereHasTimePredicate toks 0 (len toks))) =
     Some False"
    by code_simp
  show "(lex ascii_strings ''time x NOT BETWEEN'' \<bind> (\<lambda>toks. whereHasTimePredicate toks 0 (len toks))) =
     Some True"
    by code_simp
  show "(lex ascii_strings ''time (x) BETWEEN'' \<bind> (\<lambda>toks. whereHasTimePredicate toks 0 (len toks))) =
     Some True"
    by code_simp
  show "(lex ascii_strings ''(time) BETWEEN'' \<bind> (\<lambda>toks. whereHasTimePredicate toks 0 (len toks))) =
     Some False"
    by code_simp
qed

theorem between_looks_back_for_time_witness:
  "whereHasTimePredicate
     [\<lparr>val = ''time'', kind = tkIdent, depth = 0\<rparr>, \<lparr>val = ''x'', kind = tkIdent, depth = 0\<rparr>,
      \<lparr>val = ''between'', kind = tkKeyword, depth = 0\<rparr>] 0 3 = Some True"
  using between_looks_back_for_time
    [of 0 0 2 "[\<lparr>val = ''time'', kind = tkIdent, depth = 0\<rparr>, \<lparr>val = ''x'', kind = tkIdent, depth = 0\<rparr>,
                \<lparr>val = ''between'', kind = tkKeyword, depth = 0\<rparr>]" 3]
  by simp

section \<open>Comments\<close>



section \<open>Select-sites without FROM\<close>

text \<open>
  Claim C7. A select-site after whose \<open>select\<close> keyword no \<open>from\<close> keyword of the site's depth
  occurs before the depth of the tokens drops below the site's depth contributes no
  issue: its iteration of the loop in \<^verbatim>\<open>Validate\<close> appends nothing and leaves the issue list
  as it was. \<^verbatim>\<open>SELECT 1\<close> is accepted.
\<close>

theorem select_without_from_is_skipped:
  "(0 \<le> selIdx s \<longrightarrow> \<not> fromVisibleAfter toks (selIdx s + 1) (sel.depth s) \<longrightarrow>
      validateSelect L toks s = Some [] \<and>
      validateSelects L toks (s # rest) issues = validateSelects L toks rest issues) \<and>
   Validate ascii_strings query_select_1 = Some (True, [])"
proof (intro conjI impI)
  assume s: "0 \<le> selIdx s" "\<not> fromVisibleAfter toks (selIdx s + 1) (sel.depth s)"
  then have "findNextKeywordAtDepth toks (selIdx s + 1) (sel.depth s) ''from'' = Some (- 1)"
    by (intro findNextKeywordAtDepth_no_from) simp_all
  then show v: "validateSelect L toks s = Some []"
    by (simp add: validateSelect_def)
  then show "validateSelects L toks (s # rest) issues = validateSelects L toks rest issues"
    by simp
next
  show "Validate ascii_strings query_select_1 = Some (True, [])"
    by code_simp
qed

theorem select_without_from_is_skipped_witness:
  "validateSelect ascii_strings
     [\<lparr>val = ''select'', kind = tkKeyword, depth = 0\<rparr>, \<lparr>val = ''1'', kind = tkNumber, depth = 0\<rparr>]
     \<lparr>selIdx = 0, depth = 0\<rparr> = Some []"
proof -
  let ?toks = "[\<lparr>val = ''select'', kind = tkKeyword, depth = 0\<rparr>, \<lparr>val = ''1'', kind = tkNumber, depth = 0\<rparr>]"
  have "\<not> fromVisibleAfter ?toks (0 + 1) 0"
  proof
    assume "fromVisibleAfter ?toks (0 + 1) 0"
    then obtain j where "1 \<le> j" "j < 2" "kind (?toks ! nat j) = tkKeyword"
      unfolding fromVisibleAfter_def by auto
    then have "j = 1" by simp
    with \<open>kind (?toks ! nat j) = tkKeyword\<close> show False by simp
  qed
  then show ?thesis
    using select_without_from_is_skipped [of "\<lparr>selIdx = 0, depth = 0\<rparr>" ?toks ascii_strings "[]" "[]"]
    by simp
qed

section \<open>Totality\<close>



section \<open>The result of Validate\<close>

text \<open>
  Claim C9. For every input, \<^verbatim>\<open>Validate\<close> returns \<open>ok = true\<close> exactly when the issue list it
  returns is empty; that list is the concatenation, in the order of the select-sites,
  of the issues each site produced, so it is empty exactly when no site produced one.
\<close>

theorem Validate_ok_iff_no_issues:
  "\<exists>issues src toks selects per_site.
     Validate L sql = Some (issues = [], issues) \<and>
     stripComments sql = Some src \<and> lex L src = Some toks \<and>
     collectSelects toks 0 [] = Some selects \<and>
     map (validateSelect L toks) selects = map Some per_site \<and>
     issues = concat per_site \<and>
     ((issues = []) = (\<forall>site_issues\<in>set per_site. site_issues = []))"
proof -
  obtain issues where v: "Validate L sql = Some (issues = [], issues)"
    using Validate_total by blast
  then obtain src toks where src: "stripComments sql = Some src" and toks: "lex L src = Some toks"
    and vt: "validateTokens L toks = Some (issues = [], issues)"
    by (auto simp: Validate_def split: bind_splits)
  from vt obtain selects where sel: "collectSelects toks 0 [] = Some selects"
    and vs: "validateSelects L toks selects [] = Some issues"
    by (auto simp: validateTokens_def split: bind_splits)
  from validateSelects_concat [OF vs] obtain per_site where
    per: "map (validateSelect L toks) selects = map Some per_site" "issues = concat per_site"
    by auto
  from per(2) have "(issues = []) = (\<forall>site_issues\<in>set per_site. site_issues = [])"
    by simp
  with v src toks sel per show ?thesis by blast
qed

theorem Validate_ok_iff_no_issues_witness:
  "\<exists>issues. Validate ascii_strings ''SELECT 1'' = Some (issues = [], issues)"
  using Validate_ok_iff_no_issues [of ascii_strings "''SELECT 1''"] by blast

section \<open>Comment stripping and string literals\<close>

text \<open>
  Claim C10. \<^verbatim>\<open>stripComments\<close> does not track string literals. In the query
  \<^verbatim>\<open>SELECT * FROM mydb.s1 WHERE measure_name = 'a--b' AND time > ago(1h)\<close> the \<open>--\<close> inside
  the literal starts a line comment, and in the same query with \<open>'a/*b'\<close> the \<open>/*\<close> starts
  a block comment: both lose everything from the marker on, the literal reaches the
  lexer as the unterminated \<open>'a\<close>, the time predicate behind it is gone, and \<^verbatim>\<open>Validate\<close>
  answers \<open>false\<close>, although the tokens of the unstripped text pass the validation.
\<close>

theorem stripComments_cuts_string_literal:
  "stripComments query_dashes_in_literal = Some query_cut_literal \<and>
   stripComments query_block_in_literal = Some query_cut_literal \<and>
   map_option last (lex ascii_strings query_cut_literal) =
     Some \<lparr>val = [CHR 0x27, CHR ''a''], kind = tkString, depth = 0\<rparr> \<and>
   map_option fst (Validate ascii_strings query_dashes_in_literal) = Some False \<and>
   map_option fst (Validate ascii_strings query_block_in_literal) = Some False \<and>
   (lex ascii_strings query_dashes_in_literal \<bind> validateTokens ascii_strings) = Some (True, []) \<and>
   (lex ascii_strings query_block_in_literal \<bind> validateTokens ascii_strings) = Some (True, [])"
proof -
  have a: "stripComments query_dashes_in_literal = Some query_cut_literal"
    by code_simp
  have b: "stripComments query_block_in_literal = Some query_cut_literal"
    by code_simp
  have c: "map_option last (lex ascii_strings query_cut_literal) =
      Some \<lparr>val = [CHR 0x27, CHR ''a''], kind = tkString, depth = 0\<rparr>"
    by code_simp
  have d: "map_option fst (Validate ascii_strings query_dashes_in_literal) = Some False"
    by code_simp
  have e: "map_option fst (Validate ascii_strings query_block_in_literal) = Some False"
    by code_simp
  have f: "(lex ascii_strings query_dashes_in_literal \<bind> validateTokens ascii_strings) =
      Some (True, [])"
    by code_simp
  have g: "(lex ascii_strings query_block_in_literal \<bind> validateTokens ascii_strings) =
      Some (True, [])"
    by code_simp
  from a b c d e f g show ?thesis by blast
qed

end
